theory Spec2Isabelle
  imports Complex_Main
begin

section \<open>Tokens and the capitalization state machine\<close>

text \<open>
  The token type comes from the recogniser's header: a C string, a log-probability and a
  bit set of flags. The two flag bits the line generator tests are the elements of the
  set; \<open>(flags & BIT) != 0\<close> is membership.
\<close>

datatype AprilTokenFlagBits =
  APRIL_TOKEN_FLAG_WORD_BOUNDARY_BIT | APRIL_TOKEN_FLAG_SENTENCE_END_BIT

record AprilToken =
  token :: string
  logprob :: real
  flags :: "AprilTokenFlagBits set"

record token_capitalizer =
  is_english :: bool
  previous_was_period :: bool
  finished_at_period :: bool
  force_next_cap :: bool

definition token_capitalizer_init :: "token_capitalizer" where
  "token_capitalizer_init =
     \<lparr>is_english = True, previous_was_period = True,
      finished_at_period = False, force_next_cap = False\<rparr>"

text \<open>
  \<open>token_capitalizer_next\<close> returns the decision and the updated state. The
  lookahead token is \<open>None\<close> for the C \<open>NULL\<close>. \<open>token[0] == ' ' && token[1] == 0\<close>
  says that the C string is exactly one space; \<open>subsequent_token[0] == '\''\<close> reads the
  terminator of an empty string, which is not an apostrophe.
\<close>

definition token_capitalizer_next ::
  "token_capitalizer \<Rightarrow> string \<Rightarrow> AprilTokenFlagBits set \<Rightarrow> string option
     \<Rightarrow> AprilTokenFlagBits set \<Rightarrow> bool \<times> token_capitalizer" where
  "token_capitalizer_next tc tok fl subsequent_token subsequent_flags =
     (if APRIL_TOKEN_FLAG_SENTENCE_END_BIT \<in> fl then
        (False, tc\<lparr>previous_was_period := True\<rparr>)
      else if force_next_cap tc then
        (True, tc\<lparr>force_next_cap := False\<rparr>)
      else if previous_was_period tc \<and> APRIL_TOKEN_FLAG_WORD_BOUNDARY_BIT \<in> fl then
        (True, (if tok = '' '' then tc\<lparr>force_next_cap := True\<rparr> else tc)
                 \<lparr>previous_was_period := False\<rparr>)
      else if is_english tc \<and> tok = '' I'' \<and>
              (case subsequent_token of
                 None \<Rightarrow> True
               | Some s \<Rightarrow>
                   subsequent_flags \<inter>
                     {APRIL_TOKEN_FLAG_WORD_BOUNDARY_BIT, APRIL_TOKEN_FLAG_SENTENCE_END_BIT} \<noteq> {}
                   \<or> take 1 s = [CHR 0x27]) then
        (True, tc)
      else (False, tc))"

definition token_capitalizer_finish :: "token_capitalizer \<Rightarrow> token_capitalizer" where
  "token_capitalizer_finish tc =
     tc\<lparr>finished_at_period := previous_was_period tc,
        previous_was_period := False, force_next_cap := False\<rparr>"

definition token_capitalizer_rewind :: "token_capitalizer \<Rightarrow> token_capitalizer" where
  "token_capitalizer_rewind tc =
     tc\<lparr>previous_was_period := finished_at_period tc, force_next_cap := False\<rparr>"

text \<open>
  The first loop of \<open>line_generator_update\<close>: one left-to-right scan that fills the
  array \<open>should_capitalize\<close>, with the following token as lookahead where there is one.
\<close>

fun should_capitalize ::
  "token_capitalizer \<Rightarrow> AprilToken list \<Rightarrow> bool list \<times> token_capitalizer" where
  "should_capitalize tc [] = ([], tc)"
| "should_capitalize tc [t] =
     (case token_capitalizer_next tc (token t) (flags t) None {} of
        (b, tc') \<Rightarrow> ([b], tc'))"
| "should_capitalize tc (t # u # ts) =
     (case token_capitalizer_next tc (token t) (flags t) (Some (token u)) (flags u) of
        (b, tc') \<Rightarrow>
          (case should_capitalize tc' (u # ts) of (bs, tc'') \<Rightarrow> (b # bs, tc'')))"

section \<open>The line store\<close>

text \<open>
  A line's buffer is modelled by the C string it holds. \<open>active_start_of_lines\<close> uses
  \<open>-1\<close> for an inactive slot: \<open>None\<close> here. The two arrays have \<open>AC_LINE_COUNT\<close>
  entries and are only ever indexed below that bound, so they are functions of the index.
\<close>

record line =
  line_text :: string
  start_head :: nat
  start_len :: int
  head :: nat
  len :: int

record line_generator =
  current_line :: nat
  active_start_of_lines :: "nat \<Rightarrow> nat option"
  lines :: "nat \<Rightarrow> line"
  max_text_width :: int
  lg_is_english :: bool
  tcap :: token_capitalizer

datatype FilterMode = FILTER_NONE | FILTER_SLURS | FILTER_PROFANITY

text \<open>
  What the translation unit takes from outside: the two constants of the line
  generator's header, the replacement text and the lookup of the profanity filter, the
  text metrics (Pango), the Unicode routines of GLib, and the four settings read at the
  start of every update.
\<close>

record externals =
  AC_LINE_COUNT :: nat
  AC_LINE_MAX :: nat
  SWEAR_REPLACEMENT :: string
  get_filter_skip :: "AprilToken list \<Rightarrow> nat \<Rightarrow> nat \<Rightarrow> FilterMode \<Rightarrow> nat"
  get_text_width :: "string \<Rightarrow> int"
  g_utf8_get_char_validated :: "string \<Rightarrow> nat option"
  g_unichar_tolower :: "nat \<Rightarrow> nat"
  g_unichar_toupper :: "nat \<Rightarrow> nat"
  g_unichar_to_utf8 :: "nat \<Rightarrow> string"
  fade_text :: bool
  filter_slurs :: bool
  filter_profanity :: bool
  text_uppercase :: bool

definition REL_LINE_IDX :: "externals \<Rightarrow> nat \<Rightarrow> int \<Rightarrow> nat" where
  "REL_LINE_IDX E hd_idx idx =
     nat ((4 * int (AC_LINE_COUNT E) + int hd_idx + idx) mod int (AC_LINE_COUNT E))"

definition line_generator_init :: "externals \<Rightarrow> line_generator \<Rightarrow> line_generator" where
  "line_generator_init E lg =
     lg\<lparr>active_start_of_lines :=
          (\<lambda>i. if i = 0 then Some 0
               else if i < AC_LINE_COUNT E then None else active_start_of_lines lg i),
        lines :=
          (\<lambda>i. if i < AC_LINE_COUNT E then (lines lg i)\<lparr>start_head := 0, start_len := 0\<rparr>
               else lines lg i),
        current_line := 0,
        tcap := token_capitalizer_init\<rparr>"

section \<open>Rendering one token\<close>

definition MAX_TOKEN_SCRATCH :: nat where
  "MAX_TOKEN_SCRATCH = 72"

text \<open>
  \<open>g_utf8_next_char\<close> advances by the length that the first byte announces (GLib's table
  \<open>g_utf8_skip\<close>), at least one byte.
\<close>

definition g_utf8_skip :: "char \<Rightarrow> nat" where
  "g_utf8_skip c =
     (let b = (of_char c :: nat) in
      if b < 0xC0 then 1 else if b < 0xE0 then 2 else if b < 0xF0 then 3
      else if b < 0xF8 then 4 else if b < 0xFC then 5 else if b < 0xFE then 6 else 1)"

text \<open>
  The lowercasing loop over the code points of a token: \<open>p\<close> is the rest of the token,
  \<open>out\<close> what has been written to the scratch buffer. An invalid or incomplete
  sequence, and a scratch buffer with fewer than six bytes to spare, end the loop.
\<close>

function lowercase_token :: "externals \<Rightarrow> string \<Rightarrow> bool \<Rightarrow> string \<Rightarrow> string" where
  "lowercase_token E p should_be_capitalized out =
     (case p of
        [] \<Rightarrow> out
      | b # _ \<Rightarrow>
          (case g_utf8_get_char_validated E p of
             None \<Rightarrow> out
           | Some c0 \<Rightarrow>
               (let c = g_unichar_tolower E c0;
                    c1 = g_unichar_toupper E c;
                    up = should_be_capitalized \<and> c \<noteq> c1;
                    out' = out @ g_unichar_to_utf8 E (if up then c1 else c)
                in if length out' + 6 \<ge> MAX_TOKEN_SCRATCH then out'
                   else lowercase_token E (drop (g_utf8_skip b) p)
                          (should_be_capitalized \<and> \<not> up) out')))"
  by pat_completeness auto
termination
  by (relation "measure (\<lambda>(E, p, c, out). length p)") (auto simp: g_utf8_skip_def Let_def)

definition filter_mode :: "externals \<Rightarrow> FilterMode" where
  "filter_mode E =
     (if filter_profanity E then FILTER_PROFANITY
      else if filter_slurs E then FILTER_SLURS else FILTER_NONE)"

definition use_lowercase :: "externals \<Rightarrow> bool" where
  "use_lowercase E = (\<not> text_uppercase E)"

text \<open>The text of token \<open>j\<close> before the filter: the scratch buffer, or the token itself.\<close>

definition token_text :: "externals \<Rightarrow> bool list \<Rightarrow> AprilToken list \<Rightarrow> nat \<Rightarrow> string" where
  "token_text E caps tokens j =
     (if use_lowercase E then lowercase_token E (token (tokens ! j)) (caps ! j) []
      else token (tokens ! j))"

text \<open>
  The filter step gives the number of tokens to skip and the text to write. The provider
  is asked only at a word-boundary token and only when a filter is switched on.
\<close>

definition filter_current_word ::
  "externals \<Rightarrow> AprilToken list \<Rightarrow> nat \<Rightarrow> string \<Rightarrow> nat \<times> string" where
  "filter_current_word E tokens j tok =
     (if filter_mode E \<noteq> FILTER_NONE
         \<and> APRIL_TOKEN_FLAG_WORD_BOUNDARY_BIT \<in> flags (tokens ! j) then
        (let skip = get_filter_skip E tokens j (length tokens) (filter_mode E) in
         if skip > 0 then (skip, SWEAR_REPLACEMENT E) else (1, tok))
      else (1, tok))"

text \<open>
  The opacity is computed in \<open>double\<close> and stored in an \<open>int\<close> of 32 bits. The
  \<open>float\<close> log-probability converts to \<open>double\<close> without loss, and the division by
  \<open>8.0\<close> and the multiplication by \<open>65536.0\<close> are by powers of two, exact for the sum
  of a \<open>float\<close> and \<open>2.0\<close>; the sum itself is rounded to the nearest \<open>double\<close>, ties
  to the even significand of 53 bits. \<open>binade x\<close> is the binary exponent of \<open>x\<close>,
  the \<open>e\<close> with \<open>2^e \<le> |x| < 2^(e + 1)\<close>, found by halving or doubling.
\<close>

function binade :: "real \<Rightarrow> int" where
  "binade x =
     (if x = 0 then 0
      else if 2 \<le> \<bar>x\<bar> then binade (x / 2) + 1
      else if \<bar>x\<bar> < 1 then binade (x * 2) - 1
      else 0)"
  by pat_completeness auto
termination
proof (relation "measure (\<lambda>x. nat \<lfloor>\<bar>x\<bar>\<rfloor> + 2 * nat \<lceil>1 / \<bar>x\<bar>\<rceil>)")
  show "wf (measure (\<lambda>x :: real. nat \<lfloor>\<bar>x\<bar>\<rfloor> + 2 * nat \<lceil>1 / \<bar>x\<bar>\<rceil>))" by simp
next
  fix x :: real
  assume "x \<noteq> 0" and big: "2 \<le> \<bar>x\<bar>"
  have "\<lfloor>\<bar>x\<bar> / 2\<rfloor> < \<lfloor>\<bar>x\<bar>\<rfloor>"
  proof -
    have "\<bar>x\<bar> / 2 \<le> \<bar>x\<bar> - 1" using big by simp
    then have "\<lfloor>\<bar>x\<bar> / 2\<rfloor> \<le> \<lfloor>\<bar>x\<bar> - 1\<rfloor>" by (rule floor_mono)
    then show ?thesis by simp
  qed
  moreover have "0 \<le> \<lfloor>\<bar>x\<bar> / 2\<rfloor>" by simp
  moreover have "\<lceil>1 / (\<bar>x\<bar> / 2)\<rceil> = 1"
    using big by (intro ceiling_unique) (simp_all add: field_simps)
  moreover have "\<lceil>1 / \<bar>x\<bar>\<rceil> = 1"
    using big by (intro ceiling_unique) (simp_all add: field_simps)
  ultimately show "(x / 2, x) \<in> measure (\<lambda>x. nat \<lfloor>\<bar>x\<bar>\<rfloor> + 2 * nat \<lceil>1 / \<bar>x\<bar>\<rceil>)"
    using big by (simp add: abs_divide)
next
  fix x :: real
  assume nz: "x \<noteq> 0" and "\<not> 2 \<le> \<bar>x\<bar>" and small: "\<bar>x\<bar> < 1"
  have f0: "\<lfloor>\<bar>x\<bar>\<rfloor> = 0" using small by (intro floor_unique) simp_all
  have f2: "\<lfloor>\<bar>x\<bar> * 2\<rfloor> \<le> 1" using small by (simp add: floor_le_iff)
  have f2': "0 \<le> \<lfloor>\<bar>x\<bar> * 2\<rfloor>" by simp
  define a where "a = 1 / \<bar>x\<bar>"
  have a1: "1 < a" using small nz by (simp add: a_def)
  have "a / 2 \<le> real_of_int (\<lceil>a\<rceil> - 1)"
  proof (cases "a \<le> 2")
    case True
    then have "\<lceil>a\<rceil> = 2" using a1 by (intro ceiling_unique) simp_all
    then show ?thesis using True by simp
  next
    case False
    have "a \<le> real_of_int \<lceil>a\<rceil>" by simp
    then show ?thesis using False by linarith
  qed
  then have "\<lceil>a / 2\<rceil> \<le> \<lceil>a\<rceil> - 1" by (simp only: ceiling_le_iff)
  moreover have "0 < \<lceil>a / 2\<rceil>" using a1 by simp
  ultimately have "nat \<lceil>a / 2\<rceil> + 1 \<le> nat \<lceil>a\<rceil>" by linarith
  moreover have "1 / \<bar>x * 2\<bar> = a / 2" by (simp add: a_def abs_mult)
  ultimately have m2: "nat \<lceil>1 / \<bar>x * 2\<bar>\<rceil> + 1 \<le> nat \<lceil>1 / \<bar>x\<bar>\<rceil>"
    by (simp only: a_def)
  have "\<bar>x * 2\<bar> < 2" using small by (simp add: abs_mult)
  then have "\<lfloor>\<bar>x * 2\<bar>\<rfloor> < 2" by (simp add: floor_less_iff)
  then have m1: "nat \<lfloor>\<bar>x * 2\<bar>\<rfloor> \<le> 1" by arith
  have m0: "nat \<lfloor>\<bar>x\<bar>\<rfloor> = 0" using f0 by simp
  show "(x * 2, x) \<in> measure (\<lambda>x. nat \<lfloor>\<bar>x\<bar>\<rfloor> + 2 * nat \<lceil>1 / \<bar>x\<bar>\<rceil>)"
    unfolding in_measure using m0 m1 m2 by linarith
qed

declare binade.simps [simp del]

definition round_half_even :: "real \<Rightarrow> int" where
  "round_half_even q =
     (let f = \<lfloor>q\<rfloor>; r = q - real_of_int f
      in if r < 1 / 2 then f else if 1 / 2 < r then f + 1
         else if even f then f else f + 1)"

definition round_double :: "real \<Rightarrow> real" where
  "round_double x =
     (if x = 0 then 0
      else real_of_int (round_half_even (x / power_int 2 (binade x - 52)))
             * power_int 2 (binade x - 52))"

text \<open>
  The conversion of a \<open>double\<close> to \<open>int\<close> truncates towards zero. For a value outside
  the range of \<open>int\<close> the C standard leaves the conversion undefined; the conversion
  instruction of x86-64 then gives the least \<open>int\<close>, which is what is taken here.
\<close>

definition c_trunc :: "real \<Rightarrow> int" where
  "c_trunc x = (if 0 \<le> x then \<lfloor>x\<rfloor> else \<lceil>x\<rceil>)"

definition double_to_int :: "real \<Rightarrow> int" where
  "double_to_int x =
     (if - 2147483649 < x \<and> x < 2147483648 then c_trunc x else - 2147483648)"

definition token_alpha :: "real \<Rightarrow> int" where
  "token_alpha lp =
     (let a0 = double_to_int (round_double (lp + 2) / 8 * 65536);
          a1 = double_to_int (real_of_int a0 / 2);
          a2 = a1 + 32768;
          a3 = (if a2 < 10000 then 10000 else a2)
      in if a3 > 65535 then 65535 else a3)"

fun digits :: "nat \<Rightarrow> string" where
  "digits n =
     (if n < 10 then [char_of (48 + n)]
      else digits (n div 10) @ [char_of (48 + n mod 10)])"

definition printf_d :: "int \<Rightarrow> string" where
  "printf_d i = (if i < 0 then CHR ''-'' # digits (nat (- i)) else digits (nat i))"

text \<open>What \<open>sprintf\<close> produces for a token: the span with its opacity, or the bare token.\<close>

definition written_text :: "externals \<Rightarrow> int \<Rightarrow> string \<Rightarrow> string" where
  "written_text E alpha tok =
     (if fade_text E then
        ''<span fgalpha='' @ [CHR 0x22] @ printf_d alpha @ [CHR 0x22] @ ''>'' @ tok @ ''</span>''
      else tok)"

text \<open>
  \<open>sprintf(&text[head], ...)\<close> writes the string and its terminator at offset \<open>head\<close>.
  The C string in the buffer is then its first \<open>head\<close> bytes followed by what was
  written, unless it already ended before \<open>head\<close>, in which case the write is behind
  the terminator and the string stays as it is.
\<close>

definition line_append :: "line \<Rightarrow> string \<Rightarrow> line" where
  "line_append cur s =
     cur\<lparr>line_text :=
            (if head cur \<le> length (line_text cur)
             then take (head cur) (line_text cur) @ s else line_text cur),
          head := head cur + length s\<rparr>"

text \<open>The reset for writing: the terminator goes to \<open>start_head\<close>.\<close>

definition line_reset :: "line \<Rightarrow> line" where
  "line_reset cur =
     cur\<lparr>line_text := take (start_head cur) (line_text cur),
          head := start_head cur, len := start_len cur\<rparr>"

section \<open>Wrapping\<close>

text \<open>The backward scan \<open>while (!(flags & WORD_BOUNDARY) && tgt_brk > start_of_line) tgt_brk--\<close>.\<close>

fun previous_word_boundary :: "AprilToken list \<Rightarrow> nat \<Rightarrow> nat \<Rightarrow> nat" where
  "previous_word_boundary tokens start_of_line 0 = 0"
| "previous_word_boundary tokens start_of_line (Suc n) =
     (if APRIL_TOKEN_FLAG_WORD_BOUNDARY_BIT \<notin> flags (tokens ! Suc n) \<and> Suc n > start_of_line
      then previous_word_boundary tokens start_of_line n else Suc n)"

definition tgt_brk :: "AprilToken list \<Rightarrow> nat \<Rightarrow> nat \<Rightarrow> line \<Rightarrow> nat" where
  "tgt_brk tokens start_of_line j cur =
     (let b = previous_word_boundary tokens start_of_line j in
      if b = start_of_line \<and> start_head cur = 0 then j else b)"

section \<open>The layout pass\<close>

datatype error = ShouldCapitalizeOverflow | TokenIndexOutOfRange | AssertionFailed

datatype line_result = Printed line | Backtrack line | LineBreak line nat | Failed error

definition must_break :: "externals \<Rightarrow> line \<Rightarrow> bool" where
  "must_break E cur = (int (head cur) > int (AC_LINE_MAX E) - 256)"

text \<open>
  The loop that prints one line, from token \<open>j\<close> on. It ends with the line as far as it
  was written, or, on the growing line, with the token at which the next line starts.
  Reading a token at or beyond \<open>num_tokens\<close>, and a cursor at or beyond the capacity
  after \<open>sprintf\<close> (the assertion), are failures.
\<close>

function print_line ::
  "externals \<Rightarrow> bool list \<Rightarrow> AprilToken list \<Rightarrow> nat \<Rightarrow> nat \<Rightarrow> bool \<Rightarrow> int \<Rightarrow> nat \<Rightarrow> line
     \<Rightarrow> line_result" where
  "print_line E caps tokens start_of_line end_of_line is_current max_width j cur =
     (if j < end_of_line then
        if j \<ge> length tokens then Failed TokenIndexOutOfRange
        else
          (case filter_current_word E tokens j (token_text E caps tokens j) of
             (skipahead, tok) \<Rightarrow>
               if must_break E cur then Printed cur
               else
                 (let cur1 =
                        (if is_current then cur\<lparr>len := len cur + get_text_width E tok\<rparr>
                         else cur)
                  in if is_current \<and> len cur1 \<ge> max_width then
                       LineBreak cur1 (tgt_brk tokens start_of_line j cur1)
                     else
                       (let cur2 =
                              line_append cur1
                                (written_text E (token_alpha (logprob (tokens ! j))) tok)
                        in if head cur2 \<ge> AC_LINE_MAX E then Failed AssertionFailed
                           else print_line E caps tokens start_of_line end_of_line is_current
                                  max_width (j + skipahead) cur2)))
      else Printed cur)"
  by pat_completeness auto
termination
  by (relation "measure (\<lambda>(E, caps, tokens, s, e, c, m, j, cur). e - j)")
     (auto simp: filter_current_word_def Let_def split: if_splits)

text \<open>
  The body of the loop over the slots, for an active slot \<open>i\<close> that starts at token
  \<open>start_of_line\<close>: reset the line, then print it, unless there is nothing to print.
  \<open>Backtrack\<close> is the growing line whose start is no longer in the token sequence.
\<close>

definition update_line ::
  "externals \<Rightarrow> bool list \<Rightarrow> AprilToken list \<Rightarrow> line_generator \<Rightarrow> nat \<Rightarrow> nat \<Rightarrow> line_result" where
  "update_line E caps tokens lg i start_of_line =
     (let cur = line_reset (lines lg i) in
      if tokens = [] then Printed cur
      else if start_of_line \<ge> length tokens then
        (if i = current_line lg then Backtrack cur else Printed cur)
      else
        (let end_of_line =
               (case active_start_of_lines lg (REL_LINE_IDX E i 1) of
                  None \<Rightarrow> length tokens
                | Some e \<Rightarrow> if i = current_line lg then length tokens else e)
         in print_line E caps tokens start_of_line end_of_line (i = current_line lg)
              (max_text_width lg) start_of_line cur))"

datatype pass_result = Done line_generator | Retry line_generator | Abort error

text \<open>
  The loop over the slots, from slot \<open>i\<close> on. \<open>Retry\<close> carries the state with which the
  source calls \<open>line_generator_update\<close> again: after a backtrack the growing line is
  deactivated and the previous slot becomes the growing line; after a line break the next
  slot becomes the growing line, starts at the break and has no frozen prefix.
\<close>

function update_lines ::
  "externals \<Rightarrow> bool list \<Rightarrow> AprilToken list \<Rightarrow> nat \<Rightarrow> line_generator \<Rightarrow> pass_result" where
  "update_lines E caps tokens i lg =
     (if i < AC_LINE_COUNT E then
        (case active_start_of_lines lg i of
           None \<Rightarrow> update_lines E caps tokens (Suc i) lg
         | Some start_of_line \<Rightarrow>
             (case update_line E caps tokens lg i start_of_line of
                Printed cur \<Rightarrow>
                  update_lines E caps tokens (Suc i) (lg\<lparr>lines := (lines lg)(i := cur)\<rparr>)
              | Backtrack cur \<Rightarrow>
                  Retry (lg\<lparr>lines := (lines lg)(i := cur),
                           active_start_of_lines :=
                             (active_start_of_lines lg)(current_line lg := None),
                           current_line := REL_LINE_IDX E (current_line lg) (- 1)\<rparr>)
              | LineBreak cur brk \<Rightarrow>
                  (let nxt = REL_LINE_IDX E (current_line lg) 1;
                       lns = (lines lg)(i := cur)
                   in Retry (lg\<lparr>current_line := nxt,
                                active_start_of_lines :=
                                  (active_start_of_lines lg)(nxt := Some brk),
                                lines :=
                                  lns(nxt := (lns nxt)\<lparr>start_head := 0, start_len := 0\<rparr>)\<rparr>))
              | Failed err \<Rightarrow> Abort err))
      else Done lg)"
  by pat_completeness auto
termination
  by (relation "measure (\<lambda>(E, caps, tokens, i, lg). AC_LINE_COUNT E - i)") auto

text \<open>
  One pass of \<open>line_generator_update\<close>: rewind the capitalizer, fill
  \<open>should_capitalize\<close> (an array of 1024 entries), then lay the lines out.
\<close>

definition update_pass :: "externals \<Rightarrow> line_generator \<Rightarrow> AprilToken list \<Rightarrow> pass_result" where
  "update_pass E lg tokens =
     (if length tokens > 1024 then Abort ShouldCapitalizeOverflow
      else
        (case should_capitalize (token_capitalizer_rewind (tcap lg)) tokens of
           (caps, tc) \<Rightarrow> update_lines E caps tokens 0 (lg\<lparr>tcap := tc\<rparr>)))"

text \<open>
  \<open>line_generator_update\<close> calls itself after a backtrack and after a line break. The
  result is \<open>None\<close> when that never ends, \<open>Some (Inl err)\<close> when a pass fails and
  \<open>Some (Inr lg')\<close> when the call returns with the state \<open>lg'\<close>.
\<close>

partial_function (option) line_generator_update ::
  "externals \<Rightarrow> line_generator \<Rightarrow> AprilToken list \<Rightarrow> (error + line_generator) option" where
  "line_generator_update E lg tokens =
     (case update_pass E lg tokens of
        Done lg' \<Rightarrow> Some (Inr lg')
      | Abort err \<Rightarrow> Some (Inl err)
      | Retry lg' \<Rightarrow> line_generator_update E lg' tokens)"

declare line_generator_update.simps [code]

definition line_generator_finalize :: "externals \<Rightarrow> line_generator \<Rightarrow> line_generator" where
  "line_generator_finalize E lg =
     (let c = current_line lg; cur = lines lg c in
      lg\<lparr>active_start_of_lines :=
           (\<lambda>i. if i = c then Some 0
                else if i < AC_LINE_COUNT E then None else active_start_of_lines lg i),
         lines := (lines lg)(c := cur\<lparr>start_head := head cur, start_len := len cur\<rparr>),
         tcap := token_capitalizer_finish (tcap lg)\<rparr>)"

definition line_generator_break :: "externals \<Rightarrow> line_generator \<Rightarrow> line_generator" where
  "line_generator_break E lg =
     (let c = REL_LINE_IDX E (current_line lg) 1 in
      lg\<lparr>current_line := c,
         active_start_of_lines :=
           (\<lambda>i. if i = c then Some 0
                else if i < AC_LINE_COUNT E then None else active_start_of_lines lg i),
         lines := (lines lg)(c := \<lparr>line_text = [], start_head = 0, start_len = 0,
                                  head = 0, len = 0\<rparr>)\<rparr>)"

definition line_generator_set_language :: "line_generator \<Rightarrow> string \<Rightarrow> line_generator" where
  "line_generator_set_language lg language =
     (let en = (take 2 language = ''en'') in
      lg\<lparr>lg_is_english := en, tcap := (tcap lg)\<lparr>is_english := en\<rparr>\<rparr>)"

section \<open>What a printed line is expected to hold\<close>

text \<open>
  The specification's account of a line, to compare the loop of \<open>print_line\<close> with: the
  scan visits position \<open>j\<close>; where a filter is switched on, the token starts a word and
  the provider returns a skip \<open>s > 0\<close>, the replacement text stands for the tokens and
  the scan goes on at \<open>j + s\<close>; everywhere else the token's own text is taken and the
  scan goes on at \<open>j + 1\<close>. \<open>rendered\<close> is the text of these pieces as \<open>sprintf\<close>
  writes them, \<open>widths\<close> their measured widths, and \<open>fits\<close> says that the widths,
  added one after the other to the width of the line, stay below the maximum width.
\<close>

function expected_pieces ::
  "externals \<Rightarrow> bool list \<Rightarrow> AprilToken list \<Rightarrow> nat \<Rightarrow> nat \<Rightarrow> (nat \<times> string) list" where
  "expected_pieces E caps tokens end_of_line j =
     (if j < end_of_line then
        (let s = get_filter_skip E tokens j (length tokens) (filter_mode E)
         in if filter_mode E \<noteq> FILTER_NONE
               \<and> APRIL_TOKEN_FLAG_WORD_BOUNDARY_BIT \<in> flags (tokens ! j) \<and> 0 < s then
              (j, SWEAR_REPLACEMENT E) # expected_pieces E caps tokens end_of_line (j + s)
            else (j, token_text E caps tokens j) # expected_pieces E caps tokens end_of_line (j + 1))
      else [])"
  by pat_completeness auto
termination
  by (relation "measure (\<lambda>(E, caps, tokens, e, j). e - j)") auto

definition piece_text :: "externals \<Rightarrow> AprilToken list \<Rightarrow> nat \<times> string \<Rightarrow> string" where
  "piece_text E tokens p = written_text E (token_alpha (logprob (tokens ! fst p))) (snd p)"

definition rendered :: "externals \<Rightarrow> bool list \<Rightarrow> AprilToken list \<Rightarrow> nat \<Rightarrow> nat \<Rightarrow> string" where
  "rendered E caps tokens end_of_line j =
     concat (map (piece_text E tokens) (expected_pieces E caps tokens end_of_line j))"

definition widths :: "externals \<Rightarrow> bool list \<Rightarrow> AprilToken list \<Rightarrow> nat \<Rightarrow> nat \<Rightarrow> int list" where
  "widths E caps tokens end_of_line j =
     map (\<lambda>p. get_text_width E (snd p)) (expected_pieces E caps tokens end_of_line j)"

fun fits :: "int \<Rightarrow> int \<Rightarrow> int list \<Rightarrow> bool" where
  "fits max_width l [] = True"
| "fits max_width l (w # ws) = (l + w < max_width \<and> fits max_width (l + w) ws)"

section \<open>A configuration to run the code on\<close>

text \<open>
  The restriction of the GLib routines to the 7-bit range: a byte below 128 is its own
  code point, the letters \<open>A\<close> to \<open>Z\<close> and \<open>a\<close> to \<open>z\<close> change case, a code point is
  written as one byte. Any other byte is reported as invalid.
\<close>

definition ascii_get_char :: "string \<Rightarrow> nat option" where
  "ascii_get_char p =
     (case p of
        [] \<Rightarrow> None
      | c # _ \<Rightarrow> if (of_char c :: nat) < 128 then Some (of_char c) else None)"

definition ascii_tolower :: "nat \<Rightarrow> nat" where
  "ascii_tolower c = (if 65 \<le> c \<and> c \<le> 90 then c + 32 else c)"

definition ascii_toupper :: "nat \<Rightarrow> nat" where
  "ascii_toupper c = (if 97 \<le> c \<and> c \<le> 122 then c - 32 else c)"

text \<open>
  Two lines of 4096 bytes, a filter that never matches, a text metrics service that
  counts one unit per byte, and the default settings: no fade, no filter, lowercase.
\<close>

definition plain :: externals where
  "plain =
     \<lparr>AC_LINE_COUNT = 2, AC_LINE_MAX = 4096, SWEAR_REPLACEMENT = '' [__]'',
      get_filter_skip = (\<lambda>tokens j n mode. 0),
      get_text_width = (\<lambda>s. int (length s)),
      g_utf8_get_char_validated = ascii_get_char,
      g_unichar_tolower = ascii_tolower,
      g_unichar_toupper = ascii_toupper,
      g_unichar_to_utf8 = (\<lambda>c. [char_of c]),
      fade_text = False, filter_slurs = False, filter_profanity = False,
      text_uppercase = False\<rparr>"

text \<open>A line generator in zeroed memory, given a maximum width and initialised.\<close>

definition zeroed :: "int \<Rightarrow> line_generator" where
  "zeroed w =
     \<lparr>current_line = 0, active_start_of_lines = (\<lambda>i. Some 0),
      lines = (\<lambda>i. \<lparr>line_text = [], start_head = 0, start_len = 0, head = 0, len = 0\<rparr>),
      max_text_width = w, lg_is_english = False,
      tcap = \<lparr>is_english = False, previous_was_period = False,
              finished_at_period = False, force_next_cap = False\<rparr>\<rparr>"

definition fresh :: "int \<Rightarrow> line_generator" where
  "fresh w = line_generator_init plain (zeroed w)"

definition tk :: "string \<Rightarrow> AprilTokenFlagBits set \<Rightarrow> AprilToken" where
  "tk s fl = \<lparr>token = s, logprob = 0, flags = fl\<rparr>"

text \<open>What a caller sees of a result: the text of slot \<open>i\<close>.\<close>

definition shown :: "(error + line_generator) option \<Rightarrow> nat \<Rightarrow> string option" where
  "shown r i = (case r of Some (Inr lg) \<Rightarrow> Some (line_text (lines lg i)) | _ \<Rightarrow> None)"

text \<open>A filter that matches the two tokens from position 1 on, in profanity mode.\<close>

definition masking :: externals where
  "masking =
     plain\<lparr>filter_profanity := True,
           get_filter_skip := (\<lambda>tokens j n mode. if j = 1 then 2 else 0)\<rparr>"

text \<open>A caller's sequence of calls, on the result of an update.\<close>

definition then_update ::
  "externals \<Rightarrow> (error + line_generator) option \<Rightarrow> AprilToken list
     \<Rightarrow> (error + line_generator) option" where
  "then_update E r tokens =
     (case r of Some (Inr lg) \<Rightarrow> line_generator_update E lg tokens | _ \<Rightarrow> r)"

definition then_finalize ::
  "externals \<Rightarrow> (error + line_generator) option \<Rightarrow> (error + line_generator) option" where
  "then_finalize E r =
     (case r of Some (Inr lg) \<Rightarrow> Some (Inr (line_generator_finalize E lg)) | _ \<Rightarrow> r)"

text \<open>The slot that is the growing line, and the start token of slot \<open>i\<close>, in a result.\<close>

definition growing :: "(error + line_generator) option \<Rightarrow> nat option" where
  "growing r = (case r of Some (Inr lg) \<Rightarrow> Some (current_line lg) | _ \<Rightarrow> None)"

definition starts :: "(error + line_generator) option \<Rightarrow> nat \<Rightarrow> nat option" where
  "starts r i = (case r of Some (Inr lg) \<Rightarrow> active_start_of_lines lg i | _ \<Rightarrow> None)"


definition cursors_below :: "externals \<Rightarrow> line_generator \<Rightarrow> bool" where
  "cursors_below E lg =
     (\<forall>i\<in>{..<AC_LINE_COUNT E}.
        head (lines lg i) < AC_LINE_MAX E \<and> start_head (lines lg i) < AC_LINE_MAX E)"

declare expected_pieces.simps [simp del]

declare print_line.simps [simp del]
declare update_lines.simps [simp del]
declare lowercase_token.simps [simp del]
declare digits.simps [simp del]

lemmas run_defs =
  line_generator_update.simps update_pass_def update_lines.simps update_line_def
  print_line.simps lowercase_token.simps digits.simps
  plain_def masking_def zeroed_def fresh_def tk_def shown_def growing_def starts_def
  then_update_def then_finalize_def
  line_generator_init_def line_generator_finalize_def line_generator_break_def
  token_capitalizer_rewind_def token_capitalizer_init_def token_capitalizer_next_def
  token_capitalizer_finish_def REL_LINE_IDX_def line_reset_def line_append_def
  token_text_def use_lowercase_def filter_current_word_def filter_mode_def
  must_break_def written_text_def tgt_brk_def MAX_TOKEN_SCRATCH_def g_utf8_skip_def
  ascii_get_char_def ascii_tolower_def ascii_toupper_def printf_d_def
  char_of_def bit_Suc_0_iff Let_def

section \<open>Helper lemmas\<close>

lemma binade_bounds:
  assumes "x \<noteq> 0"
  shows "power_int 2 (binade x) \<le> \<bar>x\<bar>" and "\<bar>x\<bar> < power_int 2 (binade x + 1)"
proof -
  have "x \<noteq> 0 \<longrightarrow> power_int 2 (binade x) \<le> \<bar>x\<bar> \<and> \<bar>x\<bar> < power_int 2 (binade x + 1)"
  proof (induction x rule: binade.induct)
    case (1 x)
    show ?case
    proof (intro impI)
      assume nz: "x \<noteq> 0"
      consider "2 \<le> \<bar>x\<bar>" | "\<bar>x\<bar> < 1" | "1 \<le> \<bar>x\<bar>" "\<bar>x\<bar> < 2" by linarith
      then show "power_int 2 (binade x) \<le> \<bar>x\<bar> \<and> \<bar>x\<bar> < power_int 2 (binade x + 1)"
      proof cases
        case 1
        have b: "binade x = binade (x / 2) + 1" using nz 1 by (subst binade.simps) simp
        have ih: "power_int 2 (binade (x / 2)) \<le> \<bar>x / 2\<bar>"
                 "\<bar>x / 2\<bar> < power_int 2 (binade (x / 2) + 1)"
          using "1.IH"(1)[OF nz 1] nz by simp_all
        have p: "power_int (2 :: real) (k + 1) = power_int 2 k * 2" for k
          by (simp add: power_int_add)
        show ?thesis using ih unfolding b p by (simp add: abs_divide)
      next
        case 2
        have n2: "\<not> 2 \<le> \<bar>x\<bar>" using 2 by simp
        have b: "binade x + 1 = binade (x * 2)" using nz 2 by (subst binade.simps) simp
        have ih: "power_int 2 (binade (x * 2)) \<le> \<bar>x * 2\<bar>"
                 "\<bar>x * 2\<bar> < power_int 2 (binade (x * 2) + 1)"
          using "1.IH"(2)[OF nz n2 2] nz by simp_all
        have p: "power_int (2 :: real) (k + 1) = power_int 2 k * 2" for k
          by (simp add: power_int_add)
        show ?thesis using ih unfolding b[symmetric] p by (simp add: abs_mult)
      next
        case 3
        then have "binade x = 0" using nz by (subst binade.simps) simp
        then show ?thesis using 3 by simp
      qed
    qed
  qed
  then show "power_int 2 (binade x) \<le> \<bar>x\<bar>" and "\<bar>x\<bar> < power_int 2 (binade x + 1)"
    using assms by simp_all
qed






lemma rhe_of_int: "round_half_even (real_of_int n) = n"
  by (simp add: round_half_even_def)



lemma pow2_pos: "0 < power_int (2 :: real) k"
  by simp










lemma round_double_of_int:
  assumes "\<bar>m\<bar> < 2 ^ 53"
  shows "round_double (real_of_int m) = real_of_int m"
proof (cases "m = 0")
  case True
  then show ?thesis by (simp add: round_double_def)
next
  case False
  define x where "x = real_of_int m"
  define e where "e = binade x"
  have nz: "x \<noteq> 0" using False by (simp add: x_def)
  have "real_of_int \<bar>m\<bar> < real_of_int (2 ^ 53)" using assms by (simp only: of_int_less_iff)
  then have "\<bar>x\<bar> < power_int 2 53" by (simp add: x_def)
  moreover have "power_int 2 e \<le> \<bar>x\<bar>" unfolding e_def using binade_bounds(1)[OF nz] .
  ultimately have "power_int (2 :: real) e < power_int 2 53" by linarith
  then have "e < 53" by (intro power_int_le_imp_less_exp[of "2 :: real"]) simp_all
  then have le: "e \<le> 52" by simp
  define k where "k = nat (52 - e)"
  have "power_int (2 :: real) (e - 52) * power_int 2 (int k) = power_int 2 0"
    using le power_int_add[of "2 :: real" "e - 52" "int k"] by (simp add: k_def)
  then have u: "power_int (2 :: real) (e - 52) * 2 ^ k = 1" by simp
  then have "x / power_int 2 (e - 52) = x * 2 ^ k"
    by (simp add: field_simps)
  also have "\<dots> = real_of_int (m * 2 ^ k)" by (simp add: x_def)
  finally have "round_half_even (x / power_int 2 (e - 52)) = m * 2 ^ k"
    by (simp only: rhe_of_int)
  then have "round_double x = real_of_int (m * 2 ^ k) * power_int 2 (e - 52)"
    using nz by (simp add: round_double_def e_def)
  also have "\<dots> = x * (power_int 2 (e - 52) * 2 ^ k)" by (simp add: x_def)
  finally show ?thesis by (simp only: u x_def mult_1_right)
qed


lemma round_double_numeral:
  "numeral n < (2 ^ 53 :: int) \<Longrightarrow> round_double (numeral n) = numeral n"
  "numeral n < (2 ^ 53 :: int) \<Longrightarrow> round_double (- numeral n) = - numeral n"
  "round_double 1 = 1" "round_double (- 1) = - 1" "round_double 0 = 0"
  using round_double_of_int[of "numeral n"] round_double_of_int[of "- numeral n"]
    round_double_of_int[of 1] round_double_of_int[of "- 1"]
  by (simp_all add: round_double_def)





lemma print_line_start_head:
  "print_line E caps T s e c mw j cur = LineBreak cur' b \<Longrightarrow> start_head cur' = start_head cur"
proof (induction E caps T s e c mw j cur rule: print_line.induct)
  case (1 E caps T s e c mw j cur)
  show ?case using "1.prems" "1.IH"
    apply (subst (asm) print_line.simps)
    apply (auto split: if_splits prod.splits simp: Let_def line_append_def)
    done
qed





lemma next_preserves:
  "token_capitalizer_next tc tok fl s sf = (b, tc') \<Longrightarrow>
   is_english tc' = is_english tc \<and> finished_at_period tc' = finished_at_period tc"
  by (auto simp: token_capitalizer_next_def split: if_splits)

lemma scan_preserves:
  "should_capitalize tc T = (caps, tc') \<Longrightarrow>
   is_english tc' = is_english tc \<and> finished_at_period tc' = finished_at_period tc"
proof (induction tc T arbitrary: caps tc' rule: should_capitalize.induct)
  case (1 tc)
  then show ?case by simp
next
  case (2 tc t)
  then show ?case by (auto split: prod.splits dest: next_preserves)
next
  case (3 tc t u ts)
  then show ?case by (auto split: prod.splits dest!: next_preserves) 
qed

lemma rewind_eq:
  "is_english tc' = is_english tc \<Longrightarrow> finished_at_period tc' = finished_at_period tc \<Longrightarrow>
   token_capitalizer_rewind tc' = token_capitalizer_rewind tc"
  by (simp add: token_capitalizer_rewind_def)

lemma line_append_frame:
  "start_head (line_append cur s) = start_head cur"
  "start_len (line_append cur s) = start_len cur"
  "len (line_append cur s) = len cur"
  "head (line_append cur s) = head cur + length s"
  "n \<le> head cur \<Longrightarrow> take n (line_text (line_append cur s)) = take n (line_text cur)"
  by (simp_all add: line_append_def)

lemma print_line_step:
  assumes "j < e" and "j < length T"
    and "filter_current_word E T j (token_text E caps T j) = (sk, tok)"
    and "\<not> must_break E cur"
  shows "print_line E caps T s e c mw j cur =
           (if c \<and> mw \<le> len cur + get_text_width E tok then
              LineBreak (cur\<lparr>len := len cur + get_text_width E tok\<rparr>)
                (tgt_brk T s j (cur\<lparr>len := len cur + get_text_width E tok\<rparr>))
            else if AC_LINE_MAX E \<le>
                      head (line_append
                              (if c then cur\<lparr>len := len cur + get_text_width E tok\<rparr> else cur)
                              (written_text E (token_alpha (logprob (T ! j))) tok)) then
              Failed AssertionFailed
            else print_line E caps T s e c mw (j + sk)
                   (line_append
                      (if c then cur\<lparr>len := len cur + get_text_width E tok\<rparr> else cur)
                      (written_text E (token_alpha (logprob (T ! j))) tok)))"
  using assms by (subst print_line.simps) (simp add: Let_def)

lemma print_line_frame:
  "print_line E caps T s e c mw j cur = Printed cur' \<Longrightarrow>
   start_head cur' = start_head cur \<and> start_len cur' = start_len cur \<and> head cur \<le> head cur'
   \<and> (\<forall>n\<le>head cur. take n (line_text cur') = take n (line_text cur))"
proof (induction E caps T s e c mw j cur rule: print_line.induct)
  case (1 E caps T s e c mw j cur)
  show ?case
  proof (cases "j < e")
    case False
    with "1.prems" show ?thesis by (subst (asm) print_line.simps) simp
  next
    case True
    note je = this
    obtain sk tok where f: "filter_current_word E T j (token_text E caps T j) = (sk, tok)"
      by (cases "filter_current_word E T j (token_text E caps T j)")
    have jl: "j < length T"
    proof (rule ccontr)
      assume "\<not> j < length T"
      with "1.prems" je show False by (subst (asm) print_line.simps) simp
    qed
    show ?thesis
    proof (cases "must_break E cur")
      case True
      with "1.prems" je jl f show ?thesis by (subst (asm) print_line.simps) simp
    next
      case False
      note mb = this
      let ?cur1 = "if c then cur\<lparr>len := len cur + get_text_width E tok\<rparr> else cur"
      let ?cur2 = "line_append ?cur1 (written_text E (token_alpha (logprob (T ! j))) tok)"
      note st = print_line_step[OF je jl f mb, where s = s and c = c and mw = mw]
      have nb: "\<not> (c \<and> mw \<le> len ?cur1)"
      proof
        assume "c \<and> mw \<le> len ?cur1"
        then show False using st "1.prems" by auto
      qed
      have h: "\<not> AC_LINE_MAX E \<le> head ?cur2"
      proof
        assume "AC_LINE_MAX E \<le> head ?cur2"
        then show False using st "1.prems" nb by (auto split: if_splits)
      qed
      have rec: "print_line E caps T s e c mw (j + sk) ?cur2 = Printed cur'"
        using st "1.prems" nb h by (auto split: if_splits)
      note IH = "1.IH"[OF je _ f[symmetric] mb refl nb refl h rec]
      have ih: "start_head cur' = start_head ?cur2" "start_len cur' = start_len ?cur2"
        "head ?cur2 \<le> head cur'"
        "\<And>n. n \<le> head ?cur2 \<Longrightarrow> take n (line_text cur') = take n (line_text ?cur2)"
        using IH jl by simp_all
      have c2: "start_head ?cur2 = start_head cur" "start_len ?cur2 = start_len cur"
        "head cur \<le> head ?cur2"
        by (simp_all add: line_append_frame)
      have t2: "\<And>n. n \<le> head cur \<Longrightarrow> take n (line_text ?cur2) = take n (line_text cur)"
        by (simp add: line_append_frame)
      show ?thesis
      proof (intro conjI allI impI)
        show "start_head cur' = start_head cur" using ih(1) c2(1) by simp
        show "start_len cur' = start_len cur" using ih(2) c2(2) by simp
        show "head cur \<le> head cur'" using ih(3) c2(3) by (rule le_trans[rotated])
        fix n assume n: "n \<le> head cur"
        then have "n \<le> head ?cur2" using c2(3) by (rule le_trans)
        then have "take n (line_text cur') = take n (line_text ?cur2)" by (rule ih(4))
        also have "\<dots> = take n (line_text cur)" using n by (rule t2)
        finally show "take n (line_text cur') = take n (line_text cur)" .
      qed
    qed
  qed
qed

lemma line_reset_idem: "line_reset (line_reset l) = line_reset l"
  by (simp add: line_reset_def)

lemma reset_after_print:
  assumes "print_line E caps T s e c mw j (line_reset l) = Printed cur'"
  shows "line_reset cur' = line_reset l"
proof -
  from print_line_frame[OF assms]
  have a: "start_head cur' = start_head l" "start_len cur' = start_len l"
    and b: "take (start_head l) (line_text cur') = take (start_head l) (line_text (line_reset l))"
    by (simp_all add: line_reset_def)
  show ?thesis using a b by (simp add: line_reset_def)
qed

lemma update_line_reset:
  "update_line E caps T lg i s = Printed cur' \<Longrightarrow> line_reset cur' = line_reset (lines lg i)"
  by (auto simp: update_line_def Let_def line_reset_idem split: if_splits dest: reset_after_print)

lemma update_line_cong:
  "active_start_of_lines lg' = active_start_of_lines lg \<Longrightarrow> current_line lg' = current_line lg \<Longrightarrow>
   max_text_width lg' = max_text_width lg \<Longrightarrow> line_reset (lines lg' i) = line_reset (lines lg i) \<Longrightarrow>
   update_line E caps T lg' i s = update_line E caps T lg i s"
  by (simp add: update_line_def Let_def split: option.splits)

lemma update_lines_frame:
  "update_lines E caps T i lg = Done lg' \<Longrightarrow>
   active_start_of_lines lg' = active_start_of_lines lg \<and> current_line lg' = current_line lg
   \<and> max_text_width lg' = max_text_width lg \<and> tcap lg' = tcap lg
   \<and> lg_is_english lg' = lg_is_english lg
   \<and> (\<forall>k. k < i \<or> AC_LINE_COUNT E \<le> k \<or> active_start_of_lines lg k = None
          \<longrightarrow> lines lg' k = lines lg k)"
proof (induction E caps T i lg rule: update_lines.induct)
  case (1 E caps T i lg)
  show ?case
  proof (cases "i < AC_LINE_COUNT E")
    case False
    with "1.prems" show ?thesis by (subst (asm) update_lines.simps) simp
  next
    case True
    note iN = this
    show ?thesis
    proof (cases "active_start_of_lines lg i")
      case None
      with "1.prems" iN have "update_lines E caps T (Suc i) lg = Done lg'"
        by (subst (asm) update_lines.simps) simp
      from "1.IH"(1)[OF iN None this] show ?thesis by auto
    next
      case (Some s)
      with "1.prems" iN obtain c where
        u: "update_line E caps T lg i s = Printed c"
        and r: "update_lines E caps T (Suc i) (lg\<lparr>lines := (lines lg)(i := c)\<rparr>) = Done lg'"
        by (subst (asm) update_lines.simps) (auto split: line_result.splits simp: Let_def)
      from "1.IH"(2)[OF iN Some u r] Some iN show ?thesis by auto
    qed
  qed
qed

lemma update_lines_idem:
  "update_lines E caps T i lg = Done lg' \<Longrightarrow> update_lines E caps T i lg' = Done lg'"
proof (induction E caps T i lg rule: update_lines.induct)
  case (1 E caps T i lg)
  show ?case
  proof (cases "i < AC_LINE_COUNT E")
    case False
    with "1.prems" show ?thesis by (subst (asm) update_lines.simps, subst update_lines.simps) simp
  next
    case True
    note iN = this
    show ?thesis
    proof (cases "active_start_of_lines lg i")
      case None
      with "1.prems" iN have r: "update_lines E caps T (Suc i) lg = Done lg'"
        by (subst (asm) update_lines.simps) simp
      from update_lines_frame[OF r] None have "active_start_of_lines lg' i = None" by simp
      with "1.IH"(1)[OF iN None r] iN show ?thesis by (subst update_lines.simps) simp
    next
      case (Some s)
      with "1.prems" iN obtain c where
        u: "update_line E caps T lg i s = Printed c"
        and r: "update_lines E caps T (Suc i) (lg\<lparr>lines := (lines lg)(i := c)\<rparr>) = Done lg'"
        by (subst (asm) update_lines.simps) (auto split: line_result.splits simp: Let_def)
      note fr = update_lines_frame[OF r]
      have li: "lines lg' i = c" using fr by simp
      have a: "active_start_of_lines lg' i = Some s" using fr Some by simp
      have "update_line E caps T lg' i s = update_line E caps T lg i s"
        using fr li update_line_reset[OF u] by (intro update_line_cong) simp_all
      then have u': "update_line E caps T lg' i s = Printed c" using u by simp
      have "lg'\<lparr>lines := (lines lg')(i := c)\<rparr> = lg'" using li by auto
      with "1.IH"(2)[OF iN Some u r] a u' iN show ?thesis
        by (subst update_lines.simps) simp
    qed
  qed
qed

lemma update_pass_idem:
  assumes "update_pass E lg T = Done lg'"
  shows "update_pass E lg' T = Done lg'"
proof -
  obtain caps tc where sc: "should_capitalize (token_capitalizer_rewind (tcap lg)) T = (caps, tc)"
    by (cases "should_capitalize (token_capitalizer_rewind (tcap lg)) T")
  from assms sc have n: "\<not> 1024 < length T"
    and u: "update_lines E caps T 0 (lg\<lparr>tcap := tc\<rparr>) = Done lg'"
    by (auto simp: update_pass_def split: if_splits)
  from update_lines_frame[OF u] have t: "tcap lg' = tc" by simp
  from scan_preserves[OF sc] have "token_capitalizer_rewind tc = token_capitalizer_rewind (tcap lg)"
    by (intro rewind_eq) (simp_all add: token_capitalizer_rewind_def)
  then have sc': "should_capitalize (token_capitalizer_rewind (tcap lg')) T = (caps, tc)"
    using sc t by simp
  have "lg'\<lparr>tcap := tc\<rparr> = lg'" using t by auto
  then show ?thesis using update_lines_idem[OF u] sc' n by (simp add: update_pass_def)
qed

lemma update_returns_fixed_point:
  assumes "line_generator_update E lg T = Some r"
  shows "\<forall>lg'. r = Inr lg' \<longrightarrow> update_pass E lg' T = Done lg'"
proof (rule line_generator_update.raw_induct
         [where P = "\<lambda>E lg T r. \<forall>lg'. r = Inr lg' \<longrightarrow> update_pass E lg' T = Done lg'",
          OF _ assms])
  fix update :: "externals \<Rightarrow> line_generator \<Rightarrow> AprilToken list \<Rightarrow> (error + line_generator) option"
  fix E lg T r
  assume IH: "\<And>E lg T r. update E lg T = Some r \<Longrightarrow>
                \<forall>lg'. r = Inr lg' \<longrightarrow> update_pass E lg' T = Done lg'"
    and step: "(case update_pass E lg T of Done lg' \<Rightarrow> Some (Inr lg')
                | Retry lg' \<Rightarrow> update E lg' T | Abort err \<Rightarrow> Some (Inl err)) = Some r"
  show "\<forall>lg'. r = Inr lg' \<longrightarrow> update_pass E lg' T = Done lg'"
  proof (cases "update_pass E lg T")
    case (Done x)
    with step have "r = Inr x" by simp
    then show ?thesis using update_pass_idem[OF Done] by simp
  next
    case (Retry x)
    with step have "update E x T = Some r" by simp
    then show ?thesis by (rule IH)
  next
    case (Abort e)
    with step show ?thesis by auto
  qed
qed

lemma digits_length:
  "n < 100000 \<Longrightarrow> length (digits n) \<le> 5"
proof -
  have d1: "\<And>n. n < 10 \<Longrightarrow> length (digits n) \<le> 1" by (subst digits.simps) simp
  have d2: "\<And>n. n < 100 \<Longrightarrow> length (digits n) \<le> 2"
  proof -
    fix n :: nat assume "n < 100"
    then have "n div 10 < 10" by simp
    from d1[OF this] show "length (digits n) \<le> 2" by (subst digits.simps) simp
  qed
  have d3: "\<And>n. n < 1000 \<Longrightarrow> length (digits n) \<le> 3"
  proof -
    fix n :: nat assume "n < 1000"
    then have "n div 10 < 100" by simp
    from d2[OF this] show "length (digits n) \<le> 3" by (subst digits.simps) simp
  qed
  have d4: "\<And>n. n < 10000 \<Longrightarrow> length (digits n) \<le> 4"
  proof -
    fix n :: nat assume "n < 10000"
    then have "n div 10 < 1000" by simp
    from d3[OF this] show "length (digits n) \<le> 4" by (subst digits.simps) simp
  qed
  assume "n < 100000"
  then have "n div 10 < 10000" by simp
  from d4[OF this] show ?thesis by (subst digits.simps) simp
qed

lemma written_text_length:
  "length (written_text E (token_alpha lp) tok) \<le> length tok + 29"
proof -
  have "10000 \<le> token_alpha lp \<and> token_alpha lp \<le> 65535"
    by (simp add: token_alpha_def Let_def)
  then have "length (printf_d (token_alpha lp)) \<le> 5"
    by (auto simp: printf_d_def intro!: digits_length)
  then show ?thesis by (simp add: written_text_def)
qed

lemma lowercase_token_length:
  "(\<forall>c. length (g_unichar_to_utf8 E c) \<le> 6) \<Longrightarrow> length out \<le> 65 \<Longrightarrow>
   length (lowercase_token E p cap out) \<le> 71"
proof (induction E p cap out rule: lowercase_token.induct)
  case (1 E p cap out)
  note enc = "1.prems"(1) and out = "1.prems"(2)
  show ?case
  proof (cases p)
    case Nil
    then show ?thesis using out by (subst lowercase_token.simps) simp
  next
    case (Cons b x)
    show ?thesis
    proof (cases "g_utf8_get_char_validated E p")
      case None
      then show ?thesis using out Cons by (subst lowercase_token.simps) simp
    next
      case (Some c0)
      let ?c = "g_unichar_tolower E c0"
      let ?c1 = "g_unichar_toupper E ?c"
      let ?up = "cap \<and> ?c \<noteq> ?c1"
      let ?out = "out @ g_unichar_to_utf8 E (if ?up then ?c1 else ?c)"
      have l: "length ?out \<le> 71" using enc[rule_format, of "if ?up then ?c1 else ?c"] out by simp
      show ?thesis
      proof (cases "MAX_TOKEN_SCRATCH \<le> length ?out + 6")
        case True
        then show ?thesis using l Cons Some
          by (subst lowercase_token.simps) (simp add: Let_def)
      next
        case False
        then have "length ?out \<le> 65" by (simp add: MAX_TOKEN_SCRATCH_def)
        from "1.IH"[OF Cons Some refl refl refl refl False enc this]
        show ?thesis using False Cons Some
          by (subst lowercase_token.simps) (simp add: Let_def)
      qed
    qed
  qed
qed

lemma piece_length:
  assumes "\<forall>c. length (g_unichar_to_utf8 E c) \<le> 6"
    and "length (SWEAR_REPLACEMENT E) \<le> 226"
    and "text_uppercase E \<longrightarrow> (\<forall>t\<in>set T. length (token t) \<le> 226)"
    and "j < length T"
    and "filter_current_word E T j (token_text E caps T j) = (sk, tok)"
  shows "length (written_text E (token_alpha lp) tok) < 256"
proof -
  have t: "length (token_text E caps T j) \<le> 226"
  proof (cases "text_uppercase E")
    case True
    then show ?thesis using assms(3,4) by (simp add: token_text_def use_lowercase_def)
  next
    case False
    have "length (lowercase_token E (token (T ! j)) (caps ! j) []) \<le> 71"
      using assms(1) by (intro lowercase_token_length) simp_all
    then show ?thesis using False by (simp add: token_text_def use_lowercase_def)
  qed
  have "length tok \<le> 226"
    using assms(2,5) t by (auto simp: filter_current_word_def Let_def split: if_splits)
  then show ?thesis using written_text_length[of E lp tok] by simp
qed

lemma print_line_safe:
  assumes enc: "\<forall>c. length (g_unichar_to_utf8 E c) \<le> 6"
    and rep: "length (SWEAR_REPLACEMENT E) \<le> 226"
    and tok: "text_uppercase E \<longrightarrow> (\<forall>t\<in>set T. length (token t) \<le> 226)"
  shows "head cur < AC_LINE_MAX E \<Longrightarrow>
         (case print_line E caps T s e c mw j cur of
            Printed cur' \<Rightarrow> head cur' < AC_LINE_MAX E
          | Backtrack cur' \<Rightarrow> False
          | LineBreak cur' b \<Rightarrow> head cur' < AC_LINE_MAX E
          | Failed err \<Rightarrow> err \<noteq> AssertionFailed)"
  using assms
proof (induction E caps T s e c mw j cur rule: print_line.induct)
  case (1 E caps T s e c mw j cur)
  note hc = "1.prems"(1) and enc = "1.prems"(2) and rep = "1.prems"(3) and tok = "1.prems"(4)
  show ?case
  proof (cases "j < e \<and> j < length T")
    case False
    then show ?thesis using hc by (subst print_line.simps) auto
  next
    case True
    then have je: "j < e" and jl: "j < length T" by simp_all
    obtain sk tk where f: "filter_current_word E T j (token_text E caps T j) = (sk, tk)"
      by (cases "filter_current_word E T j (token_text E caps T j)")
    show ?thesis
    proof (cases "must_break E cur")
      case True
      then show ?thesis using hc je jl f by (subst print_line.simps) simp
    next
      case False
      note mb = this
      let ?cur1 = "if c then cur\<lparr>len := len cur + get_text_width E tk\<rparr> else cur"
      let ?cur2 = "line_append ?cur1 (written_text E (token_alpha (logprob (T ! j))) tk)"
      note st = print_line_step[OF je jl f mb, where s = s and c = c and mw = mw]
      have "length (written_text E (token_alpha (logprob (T ! j))) tk) < 256"
        using piece_length[OF enc rep tok jl f] .
      moreover have "int (head cur) \<le> int (AC_LINE_MAX E) - 256"
        using mb by (simp add: must_break_def)
      moreover have "head ?cur2 = head cur + length (written_text E (token_alpha (logprob (T ! j))) tk)"
        by (simp add: line_append_frame)
      ultimately have h2: "head ?cur2 < AC_LINE_MAX E" by linarith
      show ?thesis
      proof (cases "c \<and> mw \<le> len cur + get_text_width E tk")
        case True
        then show ?thesis using st hc by simp
      next
        case False
        then have nb: "\<not> (c \<and> mw \<le> len ?cur1)" by auto
        have h: "\<not> AC_LINE_MAX E \<le> head ?cur2" using h2 by simp
        from "1.IH"[OF je _ f[symmetric] mb refl nb refl h h2 enc rep tok] jl
        show ?thesis using st False h by simp
      qed
    qed
  qed
qed


lemma print_line_start_head_printed:
  "print_line E caps T s e c mw j cur = Printed cur' \<Longrightarrow> start_head cur' = start_head cur"
  by (drule print_line_frame) simp

lemma update_line_safe:
  assumes enc: "\<forall>c. length (g_unichar_to_utf8 E c) \<le> 6"
    and rep: "length (SWEAR_REPLACEMENT E) \<le> 226"
    and tok: "text_uppercase E \<longrightarrow> (\<forall>t\<in>set T. length (token t) \<le> 226)"
    and sh: "start_head (lines lg i) < AC_LINE_MAX E"
  shows "case update_line E caps T lg i s of
            Printed cur' \<Rightarrow> head cur' < AC_LINE_MAX E \<and> start_head cur' < AC_LINE_MAX E
          | Backtrack cur' \<Rightarrow> head cur' < AC_LINE_MAX E \<and> start_head cur' < AC_LINE_MAX E
          | LineBreak cur' b \<Rightarrow> head cur' < AC_LINE_MAX E \<and> start_head cur' < AC_LINE_MAX E
          | Failed err \<Rightarrow> err \<noteq> AssertionFailed"
proof -
  let ?cur = "line_reset (lines lg i)"
  have h: "head ?cur < AC_LINE_MAX E" and s0: "start_head ?cur < AC_LINE_MAX E"
    using sh by (simp_all add: line_reset_def)
  have p: "\<And>e c mw j.
        case print_line E caps T s e c mw j ?cur of
            Printed cur' \<Rightarrow> head cur' < AC_LINE_MAX E \<and> start_head cur' < AC_LINE_MAX E
          | Backtrack cur' \<Rightarrow> head cur' < AC_LINE_MAX E \<and> start_head cur' < AC_LINE_MAX E
          | LineBreak cur' b \<Rightarrow> head cur' < AC_LINE_MAX E \<and> start_head cur' < AC_LINE_MAX E
          | Failed err \<Rightarrow> err \<noteq> AssertionFailed"
  proof -
    fix e c mw j
    show "case print_line E caps T s e c mw j ?cur of
            Printed cur' \<Rightarrow> head cur' < AC_LINE_MAX E \<and> start_head cur' < AC_LINE_MAX E
          | Backtrack cur' \<Rightarrow> head cur' < AC_LINE_MAX E \<and> start_head cur' < AC_LINE_MAX E
          | LineBreak cur' b \<Rightarrow> head cur' < AC_LINE_MAX E \<and> start_head cur' < AC_LINE_MAX E
          | Failed err \<Rightarrow> err \<noteq> AssertionFailed"
      using print_line_safe[OF enc rep tok h, of caps s e c mw j] s0
      by (auto split: line_result.splits
               dest: print_line_start_head print_line_start_head_printed)
  qed
  show ?thesis
    unfolding update_line_def Let_def using h s0 p by (auto split: option.splits)
qed

lemma update_lines_safe:
  assumes enc: "\<forall>c. length (g_unichar_to_utf8 E c) \<le> 6"
    and rep: "length (SWEAR_REPLACEMENT E) \<le> 226"
    and tok: "text_uppercase E \<longrightarrow> (\<forall>t\<in>set T. length (token t) \<le> 226)"
  shows "cursors_below E lg \<Longrightarrow>
         (case update_lines E caps T i lg of
            Done lg' \<Rightarrow> cursors_below E lg'
          | Retry lg' \<Rightarrow> cursors_below E lg'
          | Abort err \<Rightarrow> err \<noteq> AssertionFailed)"
  using assms
proof (induction E caps T i lg rule: update_lines.induct)
  case (1 E caps T i lg)
  note inv = "1.prems"(1) and enc = "1.prems"(2) and rep = "1.prems"(3) and tok = "1.prems"(4)
  show ?case
  proof (cases "i < AC_LINE_COUNT E")
    case False
    then show ?thesis using inv by (subst update_lines.simps) simp
  next
    case True
    note iN = this
    show ?thesis
    proof (cases "active_start_of_lines lg i")
      case None
      from "1.IH"(1)[OF iN None inv enc rep tok] show ?thesis
        using iN None by (subst update_lines.simps) simp
    next
      case (Some s)
      have sh: "start_head (lines lg i) < AC_LINE_MAX E"
        using inv iN by (simp add: cursors_below_def)
      note ul = update_line_safe[OF enc rep tok sh, of caps s]
      show ?thesis
      proof (cases "update_line E caps T lg i s")
        case (Printed c)
        with ul have c: "head c < AC_LINE_MAX E" "start_head c < AC_LINE_MAX E" by simp_all
        have inv': "cursors_below E (lg\<lparr>lines := (lines lg)(i := c)\<rparr>)"
          using inv c by (simp add: cursors_below_def)
        from "1.IH"(2)[OF iN Some Printed inv' enc rep tok] show ?thesis
          using iN Some Printed by (subst update_lines.simps) simp
      next
        case (Backtrack c)
        with ul have c: "head c < AC_LINE_MAX E" "start_head c < AC_LINE_MAX E" by simp_all
        show ?thesis using iN Some Backtrack inv c
          by (subst update_lines.simps) (simp add: cursors_below_def)
      next
        case (LineBreak c b)
        with ul have c: "head c < AC_LINE_MAX E" "start_head c < AC_LINE_MAX E" by simp_all
        show ?thesis using iN Some LineBreak inv c
          by (subst update_lines.simps) (auto simp: cursors_below_def Let_def)
      next
        case (Failed err)
        with ul show ?thesis using iN Some by (subst update_lines.simps) simp
      qed
    qed
  qed
qed


lemma update_pass_safe:
  assumes "\<forall>c. length (g_unichar_to_utf8 E c) \<le> 6"
    and "length (SWEAR_REPLACEMENT E) \<le> 226"
    and "text_uppercase E \<longrightarrow> (\<forall>t\<in>set T. length (token t) \<le> 226)"
    and "cursors_below E lg"
  shows "case update_pass E lg T of
            Done lg' \<Rightarrow> cursors_below E lg'
          | Retry lg' \<Rightarrow> cursors_below E lg'
          | Abort err \<Rightarrow> err \<noteq> AssertionFailed"
proof (cases "1024 < length T")
  case True
  then show ?thesis by (simp add: update_pass_def)
next
  case False
  obtain caps tc where sc: "should_capitalize (token_capitalizer_rewind (tcap lg)) T = (caps, tc)"
    by (cases "should_capitalize (token_capitalizer_rewind (tcap lg)) T")
  have "cursors_below E (lg\<lparr>tcap := tc\<rparr>)" using assms(4) by (simp add: cursors_below_def)
  from update_lines_safe[OF assms(1-3) this, of caps 0] show ?thesis
    using False sc by (simp add: update_pass_def)
qed

lemma update_safe:
  assumes u: "line_generator_update E lg T = Some r"
  shows "(\<forall>c. length (g_unichar_to_utf8 E c) \<le> 6) \<longrightarrow>
         length (SWEAR_REPLACEMENT E) \<le> 226 \<longrightarrow>
         (text_uppercase E \<longrightarrow> (\<forall>t\<in>set T. length (token t) \<le> 226)) \<longrightarrow>
         cursors_below E lg \<longrightarrow>
         r \<noteq> Inl AssertionFailed \<and> (\<forall>lg'. r = Inr lg' \<longrightarrow> cursors_below E lg')"
proof (rule line_generator_update.raw_induct
         [where P = "\<lambda>E lg T r.
            (\<forall>c. length (g_unichar_to_utf8 E c) \<le> 6) \<longrightarrow>
            length (SWEAR_REPLACEMENT E) \<le> 226 \<longrightarrow>
            (text_uppercase E \<longrightarrow> (\<forall>t\<in>set T. length (token t) \<le> 226)) \<longrightarrow>
            cursors_below E lg \<longrightarrow>
            r \<noteq> Inl AssertionFailed \<and> (\<forall>lg'. r = Inr lg' \<longrightarrow> cursors_below E lg')",
          OF _ u])
  fix update :: "externals \<Rightarrow> line_generator \<Rightarrow> AprilToken list \<Rightarrow> (error + line_generator) option"
  fix E lg T r
  assume IH: "\<And>E lg T r. update E lg T = Some r \<Longrightarrow>
            (\<forall>c. length (g_unichar_to_utf8 E c) \<le> 6) \<longrightarrow>
            length (SWEAR_REPLACEMENT E) \<le> 226 \<longrightarrow>
            (text_uppercase E \<longrightarrow> (\<forall>t\<in>set T. length (token t) \<le> 226)) \<longrightarrow>
            cursors_below E lg \<longrightarrow>
            r \<noteq> Inl AssertionFailed \<and> (\<forall>lg'. r = Inr lg' \<longrightarrow> cursors_below E lg')"
    and step: "(case update_pass E lg T of Done lg' \<Rightarrow> Some (Inr lg')
                | Retry lg' \<Rightarrow> update E lg' T | Abort err \<Rightarrow> Some (Inl err)) = Some r"
  show "(\<forall>c. length (g_unichar_to_utf8 E c) \<le> 6) \<longrightarrow>
            length (SWEAR_REPLACEMENT E) \<le> 226 \<longrightarrow>
            (text_uppercase E \<longrightarrow> (\<forall>t\<in>set T. length (token t) \<le> 226)) \<longrightarrow>
            cursors_below E lg \<longrightarrow>
            r \<noteq> Inl AssertionFailed \<and> (\<forall>lg'. r = Inr lg' \<longrightarrow> cursors_below E lg')"
  proof (intro impI)
    assume enc: "\<forall>c. length (g_unichar_to_utf8 E c) \<le> 6"
      and rep: "length (SWEAR_REPLACEMENT E) \<le> 226"
      and tok: "text_uppercase E \<longrightarrow> (\<forall>t\<in>set T. length (token t) \<le> 226)"
      and inv: "cursors_below E lg"
    note ps = update_pass_safe[OF enc rep tok inv]
    show "r \<noteq> Inl AssertionFailed \<and> (\<forall>lg'. r = Inr lg' \<longrightarrow> cursors_below E lg')"
    proof (cases "update_pass E lg T")
      case (Done x)
      with step ps show ?thesis by auto
    next
      case (Retry x)
      with step have "update E x T = Some r" by simp
      from IH[OF this] enc rep tok ps Retry show ?thesis by simp
    next
      case (Abort e)
      with step ps show ?thesis by auto
    qed
  qed
qed

lemma wide_token_pass:
  assumes "current_line lg < 2"
    and "active_start_of_lines lg (current_line lg) = Some 0"
    and "start_head (lines lg (current_line lg)) = 0"
    and "start_len (lines lg (current_line lg)) = 0"
    and "max_text_width lg = 4"
  shows "\<exists>lg'. update_pass plain lg [tk '' wide'' {APRIL_TOKEN_FLAG_WORD_BOUNDARY_BIT}] = Retry lg'
           \<and> current_line lg' < 2
           \<and> active_start_of_lines lg' (current_line lg') = Some 0
           \<and> start_head (lines lg' (current_line lg')) = 0
           \<and> start_len (lines lg' (current_line lg')) = 0
           \<and> max_text_width lg' = 4"
proof -
  from assms(1) consider "current_line lg = 0" | "current_line lg = 1" by linarith
  then show ?thesis
  proof cases
    case 1
    then show ?thesis using assms(2-)
      by (cases "finished_at_period (tcap lg)"; cases "active_start_of_lines lg (Suc 0)")
         (simp_all add: run_defs)
  next
    case 2
    show ?thesis
    proof (cases "active_start_of_lines lg 0")
      case None
      then show ?thesis using 2 assms(2-)
        by (cases "finished_at_period (tcap lg)") (simp_all add: run_defs)
    next
      case (Some s)
      then show ?thesis using 2 assms(2-)
        by (cases "finished_at_period (tcap lg)"; cases "s = 0") (simp_all add: run_defs)
    qed
  qed
qed


lemma wide_token_never_returns:
  assumes "current_line lg < 2"
    and "active_start_of_lines lg (current_line lg) = Some 0"
    and "start_head (lines lg (current_line lg)) = 0"
    and "start_len (lines lg (current_line lg)) = 0"
    and "max_text_width lg = 4"
  shows "line_generator_update plain lg [tk '' wide'' {APRIL_TOKEN_FLAG_WORD_BOUNDARY_BIT}] = None"
proof (cases "line_generator_update plain lg [tk '' wide'' {APRIL_TOKEN_FLAG_WORD_BOUNDARY_BIT}]")
  case None
  then show ?thesis .
next
  case (Some r)
  have "E = plain \<and> T = [tk '' wide'' {APRIL_TOKEN_FLAG_WORD_BOUNDARY_BIT}] \<and> current_line lg < 2
          \<and> active_start_of_lines lg (current_line lg) = Some 0
          \<and> start_head (lines lg (current_line lg)) = 0
          \<and> start_len (lines lg (current_line lg)) = 0
          \<and> max_text_width lg = 4 \<longrightarrow> False"
    if u: "line_generator_update E lg T = Some r" for E lg T r
  proof (rule line_generator_update.raw_induct
         [where P = "\<lambda>E lg T r. E = plain \<and> T = [tk '' wide'' {APRIL_TOKEN_FLAG_WORD_BOUNDARY_BIT}] \<and> current_line lg < 2
          \<and> active_start_of_lines lg (current_line lg) = Some 0
          \<and> start_head (lines lg (current_line lg)) = 0
          \<and> start_len (lines lg (current_line lg)) = 0
          \<and> max_text_width lg = 4 \<longrightarrow> False", OF _ u])
    fix update :: "externals \<Rightarrow> line_generator \<Rightarrow> AprilToken list \<Rightarrow> (error + line_generator) option"
    fix E lg T r
    assume IH: "\<And>E lg T r. update E lg T = Some r \<Longrightarrow>
          E = plain \<and> T = [tk '' wide'' {APRIL_TOKEN_FLAG_WORD_BOUNDARY_BIT}] \<and> current_line lg < 2
          \<and> active_start_of_lines lg (current_line lg) = Some 0
          \<and> start_head (lines lg (current_line lg)) = 0
          \<and> start_len (lines lg (current_line lg)) = 0
          \<and> max_text_width lg = 4 \<longrightarrow> False"
      and step: "(case update_pass E lg T of Done lg' \<Rightarrow> Some (Inr lg')
                | Retry lg' \<Rightarrow> update E lg' T | Abort err \<Rightarrow> Some (Inl err)) = Some r"
    show "E = plain \<and> T = [tk '' wide'' {APRIL_TOKEN_FLAG_WORD_BOUNDARY_BIT}] \<and> current_line lg < 2
          \<and> active_start_of_lines lg (current_line lg) = Some 0
          \<and> start_head (lines lg (current_line lg)) = 0
          \<and> start_len (lines lg (current_line lg)) = 0
          \<and> max_text_width lg = 4 \<longrightarrow> False"
    proof
      assume a: "E = plain \<and> T = [tk '' wide'' {APRIL_TOKEN_FLAG_WORD_BOUNDARY_BIT}] \<and> current_line lg < 2
          \<and> active_start_of_lines lg (current_line lg) = Some 0
          \<and> start_head (lines lg (current_line lg)) = 0
          \<and> start_len (lines lg (current_line lg)) = 0
          \<and> max_text_width lg = 4"
      then obtain lg' where p: "update_pass plain lg [tk '' wide'' {APRIL_TOKEN_FLAG_WORD_BOUNDARY_BIT}] = Retry lg'"
        and s: "current_line lg' < 2" "active_start_of_lines lg' (current_line lg') = Some 0"
          "start_head (lines lg' (current_line lg')) = 0"
          "start_len (lines lg' (current_line lg')) = 0" "max_text_width lg' = 4"
        using wide_token_pass[of lg] by auto
      from step a p have "update E lg' T = Some r" by simp
      from IH[OF this] a s show False by simp
    qed
  qed
  from this[OF Some] assms show ?thesis by simp
qed

lemma backtrack_step:
  assumes "i = current_line lg" and "i < AC_LINE_COUNT E"
    and "active_start_of_lines lg i = Some s" and "length T \<le> s" and "T \<noteq> []"
  shows "update_lines E caps T i lg =
           Retry (lg\<lparr>lines := (lines lg)(i := line_reset (lines lg i)),
                    active_start_of_lines := (active_start_of_lines lg)(i := None),
                    current_line := REL_LINE_IDX E i (- 1)\<rparr>)"
  using assms by (subst update_lines.simps) (simp add: update_line_def Let_def)



lemma line_append_append:
  "line_append (line_append cur a) b = line_append cur (a @ b)"
  by (simp add: line_append_def)

lemma fits_Cons: "fits mw l (w # ws) = (l + w < mw \<and> fits mw (l + w) ws)"
  by simp

lemma print_line_renders_aux:
  assumes "e \<le> length T"
    and "head cur + length (rendered E caps T e j) + 256 \<le> AC_LINE_MAX E"
    and "c \<Longrightarrow> fits mw (len cur) (widths E caps T e j)"
    and "length (line_text cur) \<le> head cur"
  shows "print_line E caps T s e c mw j cur =
           Printed ((line_append cur (rendered E caps T e j))
                      \<lparr>len := (if c then len cur + sum_list (widths E caps T e j) else len cur)\<rparr>)"
  using assms
proof (induction E caps T e j arbitrary: cur rule: expected_pieces.induct)
  case (1 E caps T e j)
  show ?case
  proof (cases "j < e")
    case False
    then show ?thesis using "1.prems"(4)
      by (subst print_line.simps)
         (simp add: rendered_def widths_def expected_pieces.simps[of E caps T e j] line_append_def)
  next
    case True
    then have jT: "j < length T" using "1.prems"(1) by simp
    obtain sk tok where f: "filter_current_word E T j (token_text E caps T j) = (sk, tok)"
      by (cases "filter_current_word E T j (token_text E caps T j)")
    define asked where "asked = (filter_mode E \<noteq> FILTER_NONE
        \<and> APRIL_TOKEN_FLAG_WORD_BOUNDARY_BIT \<in> flags (T ! j)
        \<and> 0 < get_filter_skip E T j (length T) (filter_mode E))"
    have ep: "expected_pieces E caps T e j = (j, tok) # expected_pieces E caps T e (j + sk)"
      using True f
      by (subst expected_pieces.simps)
         (auto simp: filter_current_word_def Let_def split: if_splits)
    let ?w = "written_text E (token_alpha (logprob (T ! j))) tok"
    have r: "rendered E caps T e j = ?w @ rendered E caps T e (j + sk)"
      by (simp add: rendered_def ep piece_text_def)
    have w: "widths E caps T e j = get_text_width E tok # widths E caps T e (j + sk)"
      by (simp add: widths_def ep)
    have nb: "\<not> must_break E cur" using "1.prems"(2) by (simp add: must_break_def)
    let ?cur1 = "if c then cur\<lparr>len := len cur + get_text_width E tok\<rparr> else cur"
    let ?cur2 = "line_append ?cur1 ?w"
    have h2: "head ?cur2 = head cur + length ?w" by (simp add: line_append_def)
    have nowrap: "\<not> (c \<and> mw \<le> len cur + get_text_width E tok)"
      using "1.prems"(3) by (auto simp: w fits_Cons)
    have noassert: "\<not> AC_LINE_MAX E \<le> head ?cur2"
      using "1.prems"(2) unfolding h2 r by simp
    have step: "print_line E caps T s e c mw j cur = print_line E caps T s e c mw (j + sk) ?cur2"
      using print_line_step[OF True jT f nb, where s = s and c = c and mw = mw] nowrap noassert
      by (simp only: if_False) 
    have room': "head ?cur2 + length (rendered E caps T e (j + sk)) + 256 \<le> AC_LINE_MAX E"
      using "1.prems"(2) unfolding h2 r by simp
    have fits': "c \<Longrightarrow> fits mw (len ?cur2) (widths E caps T e (j + sk))"
      using "1.prems"(3) by (simp add: w fits_Cons line_append_def)
    have full': "length (line_text ?cur2) \<le> head ?cur2"
      by (simp add: line_append_def)
    have IH: "print_line E caps T s e c mw (j + sk) ?cur2 =
           Printed ((line_append ?cur2 (rendered E caps T e (j + sk)))
                      \<lparr>len := (if c then len ?cur2 + sum_list (widths E caps T e (j + sk))
                               else len ?cur2)\<rparr>)"
    proof (cases asked)
      case True
      then have sk: "sk = get_filter_skip E T j (length T) (filter_mode E)"
        using f by (auto simp: filter_current_word_def Let_def asked_def)
      have cond: "filter_mode E \<noteq> FILTER_NONE
          \<and> APRIL_TOKEN_FLAG_WORD_BOUNDARY_BIT \<in> flags (T ! j)
          \<and> 0 < get_filter_skip E T j (length T) (filter_mode E)"
        using True by (simp add: asked_def)
      show ?thesis
        using "1.IH"(1)[OF \<open>j < e\<close> refl cond "1.prems"(1), where cur = ?cur2]
          room' fits' full'
        unfolding sk by blast
    next
      case False
      then have sk: "sk = 1"
        using f by (auto simp: filter_current_word_def Let_def asked_def split: if_splits)
      have ncond: "\<not> (filter_mode E \<noteq> FILTER_NONE
          \<and> APRIL_TOKEN_FLAG_WORD_BOUNDARY_BIT \<in> flags (T ! j)
          \<and> 0 < get_filter_skip E T j (length T) (filter_mode E))"
        using False by (simp add: asked_def)
      show ?thesis
        using "1.IH"(2)[OF \<open>j < e\<close> refl ncond "1.prems"(1), where cur = ?cur2]
          room' fits' full'
        unfolding sk by blast
    qed
    show ?thesis
      unfolding step IH r w
      by (simp add: line_append_def)
  qed
qed


lemma print_line_renders:
  assumes "j < e" and "e \<le> length T"
    and "head cur + length (rendered E caps T e j) + 256 \<le> AC_LINE_MAX E"
    and "c \<Longrightarrow> fits mw (len cur) (widths E caps T e j)"
  shows "print_line E caps T s e c mw j cur =
           Printed ((line_append cur (rendered E caps T e j))
                      \<lparr>len := (if c then len cur + sum_list (widths E caps T e j) else len cur)\<rparr>)"
proof -
  have jT: "j < length T" using assms(1,2) by simp
  obtain sk tok where f: "filter_current_word E T j (token_text E caps T j) = (sk, tok)"
    by (cases "filter_current_word E T j (token_text E caps T j)")
  have ep: "expected_pieces E caps T e j = (j, tok) # expected_pieces E caps T e (j + sk)"
    using assms(1) f
    by (subst expected_pieces.simps)
       (auto simp: filter_current_word_def Let_def split: if_splits)
  let ?w = "written_text E (token_alpha (logprob (T ! j))) tok"
  have r: "rendered E caps T e j = ?w @ rendered E caps T e (j + sk)"
    by (simp add: rendered_def ep piece_text_def)
  have w: "widths E caps T e j = get_text_width E tok # widths E caps T e (j + sk)"
    by (simp add: widths_def ep)
  have nb: "\<not> must_break E cur" using assms(3) by (simp add: must_break_def)
  let ?cur1 = "if c then cur\<lparr>len := len cur + get_text_width E tok\<rparr> else cur"
  let ?cur2 = "line_append ?cur1 ?w"
  have h2: "head ?cur2 = head cur + length ?w" by (simp add: line_append_def)
  have nowrap: "\<not> (c \<and> mw \<le> len cur + get_text_width E tok)"
    using assms(4) by (auto simp: w fits_Cons)
  have noassert: "\<not> AC_LINE_MAX E \<le> head ?cur2"
    using assms(3) unfolding h2 r by simp
  have step: "print_line E caps T s e c mw j cur = print_line E caps T s e c mw (j + sk) ?cur2"
    using print_line_step[OF assms(1) jT f nb, where s = s and c = c and mw = mw]
      nowrap noassert
    by (simp only: if_False)
  have room': "head ?cur2 + length (rendered E caps T e (j + sk)) + 256 \<le> AC_LINE_MAX E"
    using assms(3) unfolding h2 r by simp
  have fits': "c \<Longrightarrow> fits mw (len ?cur2) (widths E caps T e (j + sk))"
    using assms(4) by (simp add: w fits_Cons line_append_def)
  have full': "length (line_text ?cur2) \<le> head ?cur2"
    by (simp add: line_append_def)
  have res: "print_line E caps T s e c mw (j + sk) ?cur2 =
           Printed ((line_append ?cur2 (rendered E caps T e (j + sk)))
                      \<lparr>len := (if c then len ?cur2 + sum_list (widths E caps T e (j + sk))
                               else len ?cur2)\<rparr>)"
    using assms(2) room' fits' full' by (rule print_line_renders_aux)
  show ?thesis
    unfolding step res r w
    by (simp add: line_append_def)
qed

section \<open>Idempotence\<close>

text \<open>
  When an update returns, a second update with the same tokens and the same
  configuration returns too, and returns the state it was given: every line buffer, and
  everything else in the line generator, is as the first call left it.
\<close>

lemma update_fixed_point_on_return:
  assumes "line_generator_update E lg tokens = Some (Inr lg')"
  shows "line_generator_update E lg' tokens = Some (Inr lg')"
  using update_returns_fixed_point[OF assms]
  by (subst line_generator_update.simps) simp

lemma update_twice_example:
  "then_update plain (line_generator_update plain (fresh 8) [tk '' '' {APRIL_TOKEN_FLAG_WORD_BOUNDARY_BIT}, tk ''hello'' {}, tk ''.'' {APRIL_TOKEN_FLAG_SENTENCE_END_BIT},
        tk '' '' {APRIL_TOKEN_FLAG_WORD_BOUNDARY_BIT}, tk ''world'' {}]) [tk '' '' {APRIL_TOKEN_FLAG_WORD_BOUNDARY_BIT}, tk ''hello'' {}, tk ''.'' {APRIL_TOKEN_FLAG_SENTENCE_END_BIT},
        tk '' '' {APRIL_TOKEN_FLAG_WORD_BOUNDARY_BIT}, tk ''world'' {}]
     = line_generator_update plain (fresh 8) [tk '' '' {APRIL_TOKEN_FLAG_WORD_BOUNDARY_BIT}, tk ''hello'' {}, tk ''.'' {APRIL_TOKEN_FLAG_SENTENCE_END_BIT},
        tk '' '' {APRIL_TOKEN_FLAG_WORD_BOUNDARY_BIT}, tk ''world'' {}]
   \<and> shown (line_generator_update plain (fresh 8) [tk '' '' {APRIL_TOKEN_FLAG_WORD_BOUNDARY_BIT}, tk ''hello'' {}, tk ''.'' {APRIL_TOKEN_FLAG_SENTENCE_END_BIT},
        tk '' '' {APRIL_TOKEN_FLAG_WORD_BOUNDARY_BIT}, tk ''world'' {}]) 0 = Some '' hello.''
   \<and> shown (line_generator_update plain (fresh 8) [tk '' '' {APRIL_TOKEN_FLAG_WORD_BOUNDARY_BIT}, tk ''hello'' {}, tk ''.'' {APRIL_TOKEN_FLAG_SENTENCE_END_BIT},
        tk '' '' {APRIL_TOKEN_FLAG_WORD_BOUNDARY_BIT}, tk ''world'' {}]) 1 = Some '' World''"
proof -
  obtain lg' where h: "line_generator_update plain (fresh 8) [tk '' '' {APRIL_TOKEN_FLAG_WORD_BOUNDARY_BIT}, tk ''hello'' {}, tk ''.'' {APRIL_TOKEN_FLAG_SENTENCE_END_BIT},
        tk '' '' {APRIL_TOKEN_FLAG_WORD_BOUNDARY_BIT}, tk ''world'' {}] = Some (Inr lg')"
    by (simp add: run_defs)
  have "then_update plain (line_generator_update plain (fresh 8) [tk '' '' {APRIL_TOKEN_FLAG_WORD_BOUNDARY_BIT}, tk ''hello'' {}, tk ''.'' {APRIL_TOKEN_FLAG_SENTENCE_END_BIT},
        tk '' '' {APRIL_TOKEN_FLAG_WORD_BOUNDARY_BIT}, tk ''world'' {}]) [tk '' '' {APRIL_TOKEN_FLAG_WORD_BOUNDARY_BIT}, tk ''hello'' {}, tk ''.'' {APRIL_TOKEN_FLAG_SENTENCE_END_BIT},
        tk '' '' {APRIL_TOKEN_FLAG_WORD_BOUNDARY_BIT}, tk ''world'' {}]
          = line_generator_update plain (fresh 8) [tk '' '' {APRIL_TOKEN_FLAG_WORD_BOUNDARY_BIT}, tk ''hello'' {}, tk ''.'' {APRIL_TOKEN_FLAG_SENTENCE_END_BIT},
        tk '' '' {APRIL_TOKEN_FLAG_WORD_BOUNDARY_BIT}, tk ''world'' {}]"
    using update_fixed_point_on_return[OF h] h by (simp add: then_update_def)
  moreover have "shown (line_generator_update plain (fresh 8) [tk '' '' {APRIL_TOKEN_FLAG_WORD_BOUNDARY_BIT}, tk ''hello'' {}, tk ''.'' {APRIL_TOKEN_FLAG_SENTENCE_END_BIT},
        tk '' '' {APRIL_TOKEN_FLAG_WORD_BOUNDARY_BIT}, tk ''world'' {}]) 0 = Some '' hello.''"
    by (simp add: run_defs)
  moreover have "shown (line_generator_update plain (fresh 8) [tk '' '' {APRIL_TOKEN_FLAG_WORD_BOUNDARY_BIT}, tk ''hello'' {}, tk ''.'' {APRIL_TOKEN_FLAG_SENTENCE_END_BIT},
        tk '' '' {APRIL_TOKEN_FLAG_WORD_BOUNDARY_BIT}, tk ''world'' {}]) 1 = Some '' World''"
    by (simp add: run_defs)
  ultimately show ?thesis by simp
qed

text \<open>
  Claim C1 says that for every token sequence two updates in a row with the same tokens
  leave the same contents in every line buffer. Wherever the first update returns this
  holds, as shown above; it fails where the update does not return. On a freshly
  initialised line generator with a maximum width of 4 the single token \<open> wide\<close> is
  wider than the line: the line is broken at its own first token, the next slot starts
  at the same token with an empty line, and so on. The first update never returns, and
  so the two updates in a row never produce the line contents that the claim speaks of.
\<close>

theorem update_twice_never_returns:
  "line_generator_update plain (fresh 4)
     [tk '' wide'' {APRIL_TOKEN_FLAG_WORD_BOUNDARY_BIT}] = None
   \<and> then_update plain
        (line_generator_update plain (fresh 4)
           [tk '' wide'' {APRIL_TOKEN_FLAG_WORD_BOUNDARY_BIT}])
        [tk '' wide'' {APRIL_TOKEN_FLAG_WORD_BOUNDARY_BIT}] = None"
proof -
  have "line_generator_update plain (fresh 4)
          [tk '' wide'' {APRIL_TOKEN_FLAG_WORD_BOUNDARY_BIT}] = None"
    by (rule wide_token_never_returns) (simp_all add: fresh_def zeroed_def line_generator_init_def plain_def)
  then show ?thesis by (simp add: then_update_def)
qed

section \<open>Wrapping at word boundaries\<close>




text \<open>
  Claim C3, as amended. When the growing line overflows at token \<open>j\<close> and the backward
  scan comes down to the line's start token, the next line starts at the current token
  if the line has no frozen prefix (\<open>start_head\<close> is 0), and at the line's start token
  if it has one.
\<close>

theorem wrap_point_at_line_start:
  assumes "j < end_of_line" and "j < length tokens" and "\<not> must_break E cur"
    and "filter_current_word E tokens j (token_text E caps tokens j) = (skipahead, tok)"
    and "max_width \<le> len cur + get_text_width E tok"
    and "previous_word_boundary tokens start_of_line j = start_of_line"
  shows "print_line E caps tokens start_of_line end_of_line True max_width j cur =
           LineBreak (cur\<lparr>len := len cur + get_text_width E tok\<rparr>)
             (if start_head cur = 0 then j else start_of_line)"
  using assms by (subst print_line.simps) (simp add: Let_def tgt_brk_def)

theorem wrap_point_at_line_start_witness:
  "print_line plain [False, False] [tk '' aaa'' {APRIL_TOKEN_FLAG_WORD_BOUNDARY_BIT}, tk ''bbb'' {}] 0 2 True 5 1
     \<lparr>line_text = '' aaa'', start_head = 0, start_len = 0, head = 4, len = 4\<rparr>
   = LineBreak \<lparr>line_text = '' aaa'', start_head = 0, start_len = 0, head = 4, len = 7\<rparr> 1
   \<and> print_line plain [False, False] [tk '' aaa'' {APRIL_TOKEN_FLAG_WORD_BOUNDARY_BIT}, tk ''bbb'' {}] 0 2 True 9 1
     \<lparr>line_text = ''xyz aaa'', start_head = 3, start_len = 3, head = 7, len = 7\<rparr>
   = LineBreak \<lparr>line_text = ''xyz aaa'', start_head = 3, start_len = 3, head = 7, len = 10\<rparr> 0"
  using wrap_point_at_line_start[of 1 2 "[tk '' aaa'' {APRIL_TOKEN_FLAG_WORD_BOUNDARY_BIT}, tk ''bbb'' {}]" plain
          "\<lparr>line_text = '' aaa'', start_head = 0, start_len = 0, head = 4, len = 4\<rparr>"
          "[False, False]" 1 "''bbb''" 5 0]
        wrap_point_at_line_start[of 1 2 "[tk '' aaa'' {APRIL_TOKEN_FLAG_WORD_BOUNDARY_BIT}, tk ''bbb'' {}]" plain
          "\<lparr>line_text = ''xyz aaa'', start_head = 3, start_len = 3, head = 7, len = 7\<rparr>"
          "[False, False]" 1 "''bbb''" 9 0]
  by (simp add: run_defs)

text \<open>
  The claim as stated has the condition the wrong way round: here the line has no
  frozen prefix, the scan from token 1 comes down to the line's start, and the next line
  starts at the current token 1.
\<close>

theorem empty_prefix_moves_wrap_counterexample:
  "start_head (lines (fresh 5) 0) = 0
   \<and> previous_word_boundary [tk '' aaa'' {APRIL_TOKEN_FLAG_WORD_BOUNDARY_BIT}, tk ''bbb'' {}] 0 1 = 0
   \<and> growing (line_generator_update plain (fresh 5) [tk '' aaa'' {APRIL_TOKEN_FLAG_WORD_BOUNDARY_BIT}, tk ''bbb'' {}]) = Some 1
   \<and> starts (line_generator_update plain (fresh 5) [tk '' aaa'' {APRIL_TOKEN_FLAG_WORD_BOUNDARY_BIT}, tk ''bbb'' {}]) 1 = Some 1
   \<and> shown (line_generator_update plain (fresh 5) [tk '' aaa'' {APRIL_TOKEN_FLAG_WORD_BOUNDARY_BIT}, tk ''bbb'' {}]) 0 = Some '' aaa''
   \<and> shown (line_generator_update plain (fresh 5) [tk '' aaa'' {APRIL_TOKEN_FLAG_WORD_BOUNDARY_BIT}, tk ''bbb'' {}]) 1 = Some ''bbb''"
  by (simp add: run_defs)

section \<open>Capitalization\<close>

text \<open>
  Claim C5, as amended. With the lowercase setting, no filter and no fade, on a growing
  line with room for the text: when the capitalizer's checkpoint says that the previous
  segment finished at a sentence end (\<open>finished_at_period\<close>), an update with the five
  tokens space, \<open>hello\<close>, period, space, \<open>world\<close> writes \<open>Hello. World\<close> after the
  leading space, behind the frozen prefix of the line: both words capitalized, the
  punctuation as it is.
\<close>

theorem capitalize_hello_world:
  assumes "finished_at_period tc" and "sl + 13 < w" and "length pre \<le> 3000"
  shows "shown (line_generator_update plain
            ((fresh w)\<lparr>tcap := tc,
               lines := (lines (fresh w))
                 (0 := \<lparr>line_text = pre @ old, start_head = length pre, start_len = sl,
                         head = h, len = l\<rparr>)\<rparr>)
            [tk '' '' {APRIL_TOKEN_FLAG_WORD_BOUNDARY_BIT}, tk ''hello'' {}, tk ''.'' {APRIL_TOKEN_FLAG_SENTENCE_END_BIT},
             tk '' '' {APRIL_TOKEN_FLAG_WORD_BOUNDARY_BIT}, tk ''world'' {}]) 0
         = Some (pre @ '' Hello. World'')"
  using assms by (simp add: run_defs)

theorem capitalize_hello_world_witness:
  "finished_at_period
     \<lparr>is_english = True, previous_was_period = False, finished_at_period = True,
      force_next_cap = False\<rparr>
   \<and> (4::int) + 13 < 100 \<and> length ''Bye.'' \<le> 3000
   \<and> shown (line_generator_update plain
            ((fresh 100)\<lparr>tcap := \<lparr>is_english = True, previous_was_period = False,
                                   finished_at_period = True, force_next_cap = False\<rparr>,
               lines := (lines (fresh 100))
                 (0 := \<lparr>line_text = ''Bye.'' @ [], start_head = length ''Bye.'', start_len = 4,
                         head = 4, len = 4\<rparr>)\<rparr>)
            [tk '' '' {APRIL_TOKEN_FLAG_WORD_BOUNDARY_BIT}, tk ''hello'' {}, tk ''.'' {APRIL_TOKEN_FLAG_SENTENCE_END_BIT},
             tk '' '' {APRIL_TOKEN_FLAG_WORD_BOUNDARY_BIT}, tk ''world'' {}]) 0
       = Some (''Bye.'' @ '' Hello. World'')"
  using capitalize_hello_world[of "\<lparr>is_english = True, previous_was_period = False,
          finished_at_period = True, force_next_cap = False\<rparr>" 4 100 "''Bye.''" "[]" 4 4]
  by simp

text \<open>
  The claim as stated fails whenever the checkpoint is not set. After a segment that did
  not end a sentence has been finalized, \<open>hello\<close> stays in lowercase; it does so too on
  a line generator that has just been initialised, because the rewind at the start of
  the update replaces \<open>previous_was_period\<close> by the checkpoint, which \<open>init\<close> clears.
\<close>

theorem hello_not_capitalized_counterexample:
  "shown (then_update plain
            (then_finalize plain
               (line_generator_update plain (fresh 1000)
                  [tk '' so'' {APRIL_TOKEN_FLAG_WORD_BOUNDARY_BIT}]))
            [tk '' '' {APRIL_TOKEN_FLAG_WORD_BOUNDARY_BIT}, tk ''hello'' {}, tk ''.'' {APRIL_TOKEN_FLAG_SENTENCE_END_BIT},
             tk '' '' {APRIL_TOKEN_FLAG_WORD_BOUNDARY_BIT}, tk ''world'' {}]) 0
     = Some '' so hello. World''
   \<and> shown (line_generator_update plain (fresh 1000)
            [tk '' '' {APRIL_TOKEN_FLAG_WORD_BOUNDARY_BIT}, tk ''hello'' {}, tk ''.'' {APRIL_TOKEN_FLAG_SENTENCE_END_BIT},
             tk '' '' {APRIL_TOKEN_FLAG_WORD_BOUNDARY_BIT}, tk ''world'' {}]) 0
     = Some '' hello. World''"
  by (simp add: run_defs)

text \<open>
  Claim C6, as amended. In English mode the pronoun rule looks for the single token
  that is a space followed by a capital I. Where no earlier rule decides (the token is
  no sentence end, no capital is forced, and no sentence start is pending at a word
  boundary), the scan of \<open>should_capitalize\<close> marks such a token for a capital exactly
  when the capitalizer is in English mode and the token is the last one, or the token
  after it carries the word-boundary or the sentence-end flag, or the token after it
  starts with an apostrophe. An update accordingly writes \<open> I'll\<close>, \<open> I\<close>, \<open> I am\<close> and
  \<open> I.\<close> with the capital, whether or not a sentence end precedes, and writes \<open> ill\<close>
  for the tokens \<open> I\<close>, \<open>ll\<close> in the middle of a sentence, where the token after the
  pronoun meets none of the three conditions.
\<close>

theorem capitalize_pronoun:
  fixes tc st :: token_capitalizer and t :: AprilToken and pre old :: string
    and sl w l :: int and h :: nat
  assumes "is_english tc" and "sl + 5 < w" and "length pre \<le> 3000"
    and "token t = '' I''" and "APRIL_TOKEN_FLAG_SENTENCE_END_BIT \<notin> flags t"
    and "\<not> force_next_cap st"
    and "\<not> (previous_was_period st \<and> APRIL_TOKEN_FLAG_WORD_BOUNDARY_BIT \<in> flags t)"
  defines "lg \<equiv> (fresh w)\<lparr>tcap := tc,
               lines := (lines (fresh w))
                 (0 := \<lparr>line_text = pre @ old, start_head = length pre, start_len = sl,
                         head = h, len = l\<rparr>)\<rparr>"
  shows "hd (fst (should_capitalize st (t # rest))) =
           (is_english st \<and>
            (case rest of
               [] \<Rightarrow> True
             | u # _ \<Rightarrow>
                 APRIL_TOKEN_FLAG_WORD_BOUNDARY_BIT \<in> flags u
                 \<or> APRIL_TOKEN_FLAG_SENTENCE_END_BIT \<in> flags u
                 \<or> take 1 (token u) = [CHR 0x27]))
   \<and> shown (line_generator_update plain lg
            [tk '' I'' {APRIL_TOKEN_FLAG_WORD_BOUNDARY_BIT}, tk [CHR 0x27] {}, tk ''ll'' {}]) 0
         = Some (pre @ '' I'' @ [CHR 0x27] @ ''ll'')
   \<and> shown (line_generator_update plain lg
            [tk '' I'' {APRIL_TOKEN_FLAG_WORD_BOUNDARY_BIT}]) 0
         = Some (pre @ '' I'')
   \<and> shown (line_generator_update plain lg
            [tk '' I'' {APRIL_TOKEN_FLAG_WORD_BOUNDARY_BIT},
             tk '' am'' {APRIL_TOKEN_FLAG_WORD_BOUNDARY_BIT}]) 0
         = Some (pre @ '' I am'')
   \<and> shown (line_generator_update plain lg
            [tk '' I'' {APRIL_TOKEN_FLAG_WORD_BOUNDARY_BIT},
             tk ''.'' {APRIL_TOKEN_FLAG_SENTENCE_END_BIT}]) 0
         = Some (pre @ '' I.'')
   \<and> shown (line_generator_update plain lg
            [tk '' I'' {APRIL_TOKEN_FLAG_WORD_BOUNDARY_BIT}, tk ''ll'' {}]) 0
         = Some (pre @ (if finished_at_period tc then '' Ill'' else '' ill''))"
proof -
  have a: "hd (fst (should_capitalize st (t # rest))) =
           (is_english st \<and>
            (case rest of
               [] \<Rightarrow> True
             | u # _ \<Rightarrow>
                 APRIL_TOKEN_FLAG_WORD_BOUNDARY_BIT \<in> flags u
                 \<or> APRIL_TOKEN_FLAG_SENTENCE_END_BIT \<in> flags u
                 \<or> take 1 (token u) = [CHR 0x27]))"
    using assms(4-7)
    by (cases rest) (auto simp: token_capitalizer_next_def split: prod.splits)
  have b: "shown (line_generator_update plain lg
            [tk '' I'' {APRIL_TOKEN_FLAG_WORD_BOUNDARY_BIT}, tk [CHR 0x27] {}, tk ''ll'' {}]) 0
         = Some (pre @ '' I'' @ [CHR 0x27] @ ''ll'')"
    using assms(1-3) unfolding lg_def
    by (cases "finished_at_period tc") (simp_all add: run_defs)
  have c: "shown (line_generator_update plain lg
            [tk '' I'' {APRIL_TOKEN_FLAG_WORD_BOUNDARY_BIT}]) 0
         = Some (pre @ '' I'')"
    using assms(1-3) unfolding lg_def
    by (cases "finished_at_period tc") (simp_all add: run_defs)
  have d: "shown (line_generator_update plain lg
            [tk '' I'' {APRIL_TOKEN_FLAG_WORD_BOUNDARY_BIT},
             tk '' am'' {APRIL_TOKEN_FLAG_WORD_BOUNDARY_BIT}]) 0
         = Some (pre @ '' I am'')"
    using assms(1-3) unfolding lg_def
    by (cases "finished_at_period tc") (simp_all add: run_defs)
  have e: "shown (line_generator_update plain lg
            [tk '' I'' {APRIL_TOKEN_FLAG_WORD_BOUNDARY_BIT},
             tk ''.'' {APRIL_TOKEN_FLAG_SENTENCE_END_BIT}]) 0
         = Some (pre @ '' I.'')"
    using assms(1-3) unfolding lg_def
    by (cases "finished_at_period tc") (simp_all add: run_defs)
  have f: "shown (line_generator_update plain lg
            [tk '' I'' {APRIL_TOKEN_FLAG_WORD_BOUNDARY_BIT}, tk ''ll'' {}]) 0
         = Some (pre @ (if finished_at_period tc then '' Ill'' else '' ill''))"
    using assms(1-3) unfolding lg_def
    by (cases "finished_at_period tc") (simp_all add: run_defs)
  show ?thesis using a b c d e f by (intro conjI)
qed


text \<open>
  In the middle of a sentence, after the frozen text \<open>and so\<close>: the scan marks \<open> I\<close>
  before an apostrophe and leaves it unmarked before \<open>ll\<close>, and the update writes the
  five lines accordingly.
\<close>

theorem capitalize_pronoun_witness:
  "hd (fst (should_capitalize
        \<lparr>is_english = True, previous_was_period = False, finished_at_period = False,
        force_next_cap = False\<rparr>
        (tk '' I'' {APRIL_TOKEN_FLAG_WORD_BOUNDARY_BIT} # [tk ''ll'' {}]))) = False
   \<and> hd (fst (should_capitalize
        \<lparr>is_english = True, previous_was_period = False, finished_at_period = False,
        force_next_cap = False\<rparr>
        (tk '' I'' {APRIL_TOKEN_FLAG_WORD_BOUNDARY_BIT} # [tk [CHR 0x27] {}, tk ''ll'' {}]))) = True
   \<and> shown (line_generator_update plain
            ((fresh 100)\<lparr>tcap := \<lparr>is_english = True, previous_was_period = False, finished_at_period = False,
        force_next_cap = False\<rparr>,
               lines := (lines (fresh 100))
                 (0 := \<lparr>line_text = ''and so'' @ [], start_head = length ''and so'',
                         start_len = 7, head = 6, len = 7\<rparr>)\<rparr>)
            [tk '' I'' {APRIL_TOKEN_FLAG_WORD_BOUNDARY_BIT}, tk [CHR 0x27] {}, tk ''ll'' {}]) 0
         = Some (''and so'' @ '' I'' @ [CHR 0x27] @ ''ll'')
   \<and> shown (line_generator_update plain
            ((fresh 100)\<lparr>tcap := \<lparr>is_english = True, previous_was_period = False, finished_at_period = False,
        force_next_cap = False\<rparr>,
               lines := (lines (fresh 100))
                 (0 := \<lparr>line_text = ''and so'' @ [], start_head = length ''and so'',
                         start_len = 7, head = 6, len = 7\<rparr>)\<rparr>)
            [tk '' I'' {APRIL_TOKEN_FLAG_WORD_BOUNDARY_BIT}]) 0
         = Some (''and so'' @ '' I'')
   \<and> shown (line_generator_update plain
            ((fresh 100)\<lparr>tcap := \<lparr>is_english = True, previous_was_period = False, finished_at_period = False,
        force_next_cap = False\<rparr>,
               lines := (lines (fresh 100))
                 (0 := \<lparr>line_text = ''and so'' @ [], start_head = length ''and so'',
                         start_len = 7, head = 6, len = 7\<rparr>)\<rparr>)
            [tk '' I'' {APRIL_TOKEN_FLAG_WORD_BOUNDARY_BIT},
             tk '' am'' {APRIL_TOKEN_FLAG_WORD_BOUNDARY_BIT}]) 0
         = Some (''and so'' @ '' I am'')
   \<and> shown (line_generator_update plain
            ((fresh 100)\<lparr>tcap := \<lparr>is_english = True, previous_was_period = False, finished_at_period = False,
        force_next_cap = False\<rparr>,
               lines := (lines (fresh 100))
                 (0 := \<lparr>line_text = ''and so'' @ [], start_head = length ''and so'',
                         start_len = 7, head = 6, len = 7\<rparr>)\<rparr>)
            [tk '' I'' {APRIL_TOKEN_FLAG_WORD_BOUNDARY_BIT},
             tk ''.'' {APRIL_TOKEN_FLAG_SENTENCE_END_BIT}]) 0
         = Some (''and so'' @ '' I.'')
   \<and> shown (line_generator_update plain
            ((fresh 100)\<lparr>tcap := \<lparr>is_english = True, previous_was_period = False, finished_at_period = False,
        force_next_cap = False\<rparr>,
               lines := (lines (fresh 100))
                 (0 := \<lparr>line_text = ''and so'' @ [], start_head = length ''and so'',
                         start_len = 7, head = 6, len = 7\<rparr>)\<rparr>)
            [tk '' I'' {APRIL_TOKEN_FLAG_WORD_BOUNDARY_BIT}, tk ''ll'' {}]) 0
         = Some (''and so'' @ '' ill'')"
  using capitalize_pronoun[where tc = "\<lparr>is_english = True, previous_was_period = False, finished_at_period = False,
        force_next_cap = False\<rparr>"
      and st = "\<lparr>is_english = True, previous_was_period = False, finished_at_period = False,
        force_next_cap = False\<rparr>"
      and t = "tk '' I'' {APRIL_TOKEN_FLAG_WORD_BOUNDARY_BIT}" and rest = "[tk ''ll'' {}]"
      and sl = 7 and w = 100 and pre = "''and so''" and old = "[]" and h = 6 and l = 7]
    capitalize_pronoun[where tc = "\<lparr>is_english = True, previous_was_period = False, finished_at_period = False,
        force_next_cap = False\<rparr>"
      and st = "\<lparr>is_english = True, previous_was_period = False, finished_at_period = False,
        force_next_cap = False\<rparr>"
      and t = "tk '' I'' {APRIL_TOKEN_FLAG_WORD_BOUNDARY_BIT}"
      and rest = "[tk [CHR 0x27] {}, tk ''ll'' {}]"
      and sl = 7 and w = 100 and pre = "''and so''" and old = "[]" and h = 6 and l = 7]
  by (simp add: tk_def)

text \<open>
  With the claim's own token sequence the pronoun is the token \<open>I\<close> without the space,
  which the rule does not match: in English mode, in the middle of a sentence, it is
  written in lowercase.
\<close>

theorem pronoun_token_counterexample:
  "is_english (tcap (fresh 1000))
   \<and> shown (then_update plain
              (then_finalize plain
                 (line_generator_update plain (fresh 1000)
                    [tk '' so'' {APRIL_TOKEN_FLAG_WORD_BOUNDARY_BIT}]))
              [tk '' '' {APRIL_TOKEN_FLAG_WORD_BOUNDARY_BIT}, tk ''I'' {},
               tk [CHR 0x27] {}, tk ''ll'' {}]) 0
     = Some ('' so i'' @ [CHR 0x27] @ ''ll'')
   \<and> shown (line_generator_update plain (fresh 1000)
              [tk '' '' {APRIL_TOKEN_FLAG_WORD_BOUNDARY_BIT}, tk ''I'' {},
               tk [CHR 0x27] {}, tk ''ll'' {}]) 0
     = Some ('' i'' @ [CHR 0x27] @ ''ll'')"
  by (simp add: run_defs)

section \<open>The filter\<close>

text \<open>
  Claim C7, as amended. On a line that is printed to the end of its range (the range lies
  within the token sequence, the text of the range fits the buffer with the safety
  margin of 256 bytes to spare, and on the growing line the widths stay below the
  maximum), every position \<open>j\<close> of the scan contributes one piece of text, written at
  the cursor, and the rest of the line is what the scan from the next position
  contributes. Where a filter is switched on, the token at \<open>j\<close> carries the
  word-boundary flag and the provider returns \<open>s > 0\<close>, the piece is the replacement
  text and the next position is \<open>j + s\<close>: the tokens from \<open>j\<close> to \<open>j + s - 1\<close> leave no
  text of their own. Everywhere else (no filter, no word-boundary flag, or a provider
  that returns 0) the piece is the token's own text and the next position is \<open>j + 1\<close>,
  whatever the provider would return there.
\<close>

theorem filter_substitution:
  fixes E :: externals and tokens :: "AprilToken list" and j :: nat and caps :: "bool list"
  defines "s \<equiv> get_filter_skip E tokens j (length tokens) (filter_mode E)"
  defines "matched \<equiv> filter_mode E \<noteq> FILTER_NONE
                      \<and> APRIL_TOKEN_FLAG_WORD_BOUNDARY_BIT \<in> flags (tokens ! j) \<and> 0 < s"
  defines "tok \<equiv> if matched then SWEAR_REPLACEMENT E else token_text E caps tokens j"
  defines "next_j \<equiv> if matched then j + s else j + 1"
  assumes "j < end_of_line" and "end_of_line \<le> length tokens"
    and "head cur + length (rendered E caps tokens end_of_line j) + 256 \<le> AC_LINE_MAX E"
    and "is_current \<Longrightarrow> fits max_width (len cur) (widths E caps tokens end_of_line j)"
  shows "print_line E caps tokens start_of_line end_of_line is_current max_width j cur =
           Printed
             ((line_append cur
                 (written_text E (token_alpha (logprob (tokens ! j))) tok
                    @ rendered E caps tokens end_of_line next_j))
                \<lparr>len := (if is_current then
                            len cur + get_text_width E tok
                              + sum_list (widths E caps tokens end_of_line next_j)
                          else len cur)\<rparr>)"
proof -
  have ep: "expected_pieces E caps tokens end_of_line j =
              (j, tok) # expected_pieces E caps tokens end_of_line next_j"
    using assms(5)
    by (subst expected_pieces.simps)
       (simp add: s_def matched_def tok_def next_j_def Let_def)
  have r: "rendered E caps tokens end_of_line j =
             written_text E (token_alpha (logprob (tokens ! j))) tok
               @ rendered E caps tokens end_of_line next_j"
    by (simp add: rendered_def ep piece_text_def)
  have w: "widths E caps tokens end_of_line j =
             get_text_width E tok # widths E caps tokens end_of_line next_j"
    by (simp add: widths_def ep)
  show ?thesis
    using print_line_renders[OF assms(5,6,7,8), where s = start_of_line]
    by (simp add: r w)
qed

text \<open>
  With the profanity filter on and a provider that masks two tokens at position 1, the
  line \<open> Hi\<close> followed by \<open> da\<close>, \<open>rn\<close>, \<open> you\<close> becomes \<open> Hi [__] you\<close>; when the
  token at position 1 does not start a word the provider is not asked and the line
  becomes \<open> Hidarn you\<close>.
\<close>

theorem filter_substitution_witness:
  "print_line masking [True, False, False, False]
     [tk '' hi'' {APRIL_TOKEN_FLAG_WORD_BOUNDARY_BIT},
      tk '' da'' {APRIL_TOKEN_FLAG_WORD_BOUNDARY_BIT}, tk ''rn'' {},
      tk '' you'' {APRIL_TOKEN_FLAG_WORD_BOUNDARY_BIT}] 0 4 True 100 1
     \<lparr>line_text = '' Hi'', start_head = 0, start_len = 0, head = 3, len = 3\<rparr> =
   Printed \<lparr>line_text = '' Hi [__] you'', start_head = 0, start_len = 0, head = 12, len = 12\<rparr>
   \<and> print_line masking [True, False, False, False]
     [tk '' hi'' {APRIL_TOKEN_FLAG_WORD_BOUNDARY_BIT},
      tk ''da'' {}, tk ''rn'' {},
      tk '' you'' {APRIL_TOKEN_FLAG_WORD_BOUNDARY_BIT}] 0 4 True 100 1
     \<lparr>line_text = '' Hi'', start_head = 0, start_len = 0, head = 3, len = 3\<rparr> =
   Printed \<lparr>line_text = '' Hidarn you'', start_head = 0, start_len = 0, head = 11, len = 11\<rparr>"
  using filter_substitution [where j = 1 and end_of_line = 4 and E = masking
     and tokens = "[tk '' hi'' {APRIL_TOKEN_FLAG_WORD_BOUNDARY_BIT},
      tk '' da'' {APRIL_TOKEN_FLAG_WORD_BOUNDARY_BIT}, tk ''rn'' {},
      tk '' you'' {APRIL_TOKEN_FLAG_WORD_BOUNDARY_BIT}]"
     and cur = "\<lparr>line_text = '' Hi'', start_head = 0, start_len = 0, head = 3, len = 3\<rparr>"
     and caps = "[True, False, False, False]" and is_current = True and max_width = 100
     and start_of_line = 0]
   filter_substitution [where j = 1 and end_of_line = 4 and E = masking
     and tokens = "[tk '' hi'' {APRIL_TOKEN_FLAG_WORD_BOUNDARY_BIT},
      tk ''da'' {}, tk ''rn'' {},
      tk '' you'' {APRIL_TOKEN_FLAG_WORD_BOUNDARY_BIT}]"
     and cur = "\<lparr>line_text = '' Hi'', start_head = 0, start_len = 0, head = 3, len = 3\<rparr>"
     and caps = "[True, False, False, False]" and is_current = True and max_width = 100
     and start_of_line = 0]
  by (simp add: run_defs expected_pieces.simps rendered_def widths_def piece_text_def
        token_alpha_def double_to_int_def c_trunc_def round_double_numeral less_Suc_eq_0_disj
        del: print_line.simps)

text \<open>
  The claim as stated fails at a position that the loop reaches with the cursor inside
  the safety margin. The line holds a frozen prefix of 3838 bytes and the capacity is
  4096; after \<open> oh\<close> the cursor is at 3841, beyond 4096 - 256, and the loop stops at
  position 1 before anything is written there, although the provider returns 2 at this
  position: neither the replacement text nor anything after it is appended.
\<close>

theorem filter_match_in_margin_counterexample:
  "get_filter_skip masking
     [tk '' oh'' {APRIL_TOKEN_FLAG_WORD_BOUNDARY_BIT},
      tk '' da'' {APRIL_TOKEN_FLAG_WORD_BOUNDARY_BIT}, tk ''rn'' {},
      tk '' you'' {APRIL_TOKEN_FLAG_WORD_BOUNDARY_BIT}] 1 4 (filter_mode masking) = 2
   \<and> shown
        (line_generator_update masking
           ((fresh 100000)
              \<lparr>lines := (lines (fresh 100000))
                 (0 := \<lparr>line_text = replicate 3838 CHR ''x'', start_head = 3838, start_len = 0,
                         head = 3838, len = 0\<rparr>)\<rparr>)
           [tk '' oh'' {APRIL_TOKEN_FLAG_WORD_BOUNDARY_BIT},
            tk '' da'' {APRIL_TOKEN_FLAG_WORD_BOUNDARY_BIT}, tk ''rn'' {},
            tk '' you'' {APRIL_TOKEN_FLAG_WORD_BOUNDARY_BIT}]) 0 =
       Some (replicate 3838 CHR ''x'' @ '' oh'')"
  by (simp add: run_defs)

section \<open>Fade\<close>




section \<open>Finalize\<close>




section \<open>The write cursor\<close>

text \<open>
  Let every piece of text that can be appended be shorter than the
  safety margin of 256 bytes: a code point is encoded in at most 6 bytes, the replacement
  text has at most 226 bytes and, with the uppercase setting, where tokens are written as
  they come, every token has at most 226 bytes. Then, from a state in which every cursor
  and every frozen checkpoint is below the capacity, no pass and no update fails the
  assertion, and every state that a pass hands on or that the update returns has its
  cursors below the capacity again. A line whose cursor is within the margin is left as
  it is for the pass.
\<close>

lemma cursor_below_capacity:
  assumes "\<forall>c. length (g_unichar_to_utf8 E c) \<le> 6"
    and "length (SWEAR_REPLACEMENT E) \<le> 226"
    and "text_uppercase E \<longrightarrow> (\<forall>t\<in>set tokens. length (token t) \<le> 226)"
    and "cursors_below E lg"
  shows "(case update_pass E lg tokens of
            Done lg' \<Rightarrow> cursors_below E lg'
          | Retry lg' \<Rightarrow> cursors_below E lg'
          | Abort err \<Rightarrow> err \<noteq> AssertionFailed)
         \<and> line_generator_update E lg tokens \<noteq> Some (Inl AssertionFailed)
         \<and> (\<forall>lg'. line_generator_update E lg tokens = Some (Inr lg') \<longrightarrow> cursors_below E lg')
         \<and> (\<forall>j cur caps s e c mw. j < e \<and> j < length tokens \<and> must_break E cur \<longrightarrow>
               print_line E caps tokens s e c mw j cur = Printed cur)"
proof (intro conjI allI impI)
  show "case update_pass E lg tokens of
            Done lg' \<Rightarrow> cursors_below E lg'
          | Retry lg' \<Rightarrow> cursors_below E lg'
          | Abort err \<Rightarrow> err \<noteq> AssertionFailed"
    using assms by (rule update_pass_safe)
  show "line_generator_update E lg tokens \<noteq> Some (Inl AssertionFailed)"
  proof
    assume a: "line_generator_update E lg tokens = Some (Inl AssertionFailed)"
    from update_safe[OF a] assms show False by simp
  qed
next
  fix lg' assume a: "line_generator_update E lg tokens = Some (Inr lg')"
  from update_safe[OF a] assms show "cursors_below E lg'" by simp
next
  fix j cur caps s e c mw
  assume "j < e \<and> j < length tokens \<and> must_break E cur"
  then show "print_line E caps tokens s e c mw j cur = Printed cur"
    by (subst print_line.simps) (simp split: prod.splits)
qed

lemma cursor_below_capacity_example:
  "(\<forall>c. length (g_unichar_to_utf8 plain c) \<le> 6)
   \<and> length (SWEAR_REPLACEMENT plain) \<le> 226
   \<and> \<not> text_uppercase plain
   \<and> cursors_below plain (fresh 8)
   \<and> line_generator_update plain (fresh 8)
        [tk '' '' {APRIL_TOKEN_FLAG_WORD_BOUNDARY_BIT}, tk ''hello'' {}] \<noteq> Some (Inl AssertionFailed)
   \<and> shown (line_generator_update plain (fresh 8)
        [tk '' '' {APRIL_TOKEN_FLAG_WORD_BOUNDARY_BIT}, tk ''hello'' {}]) 0 = Some '' hello''"
proof -
  have a: "\<forall>c. length (g_unichar_to_utf8 plain c) \<le> 6" by (simp add: plain_def)
  have b: "length (SWEAR_REPLACEMENT plain) \<le> 226" by (simp add: plain_def)
  have c: "\<not> text_uppercase plain" by (simp add: plain_def)
  then have c': "text_uppercase plain \<longrightarrow>
       (\<forall>t\<in>set [tk '' '' {APRIL_TOKEN_FLAG_WORD_BOUNDARY_BIT}, tk ''hello'' {}]. length (token t) \<le> 226)"
    by simp
  have d: "cursors_below plain (fresh 8)" by (simp add: cursors_below_def run_defs)
  have e: "shown (line_generator_update plain (fresh 8)
        [tk '' '' {APRIL_TOKEN_FLAG_WORD_BOUNDARY_BIT}, tk ''hello'' {}]) 0 = Some '' hello''"
    by (simp add: run_defs)
  from cursor_below_capacity[OF a b c' d] a b c d e show ?thesis by simp
qed

text \<open>
  Claim C8 says that in every update the cursor of every line stays strictly below the
  capacity of the buffer: the check of the safety margin before a token is appended
  keeps the append from overflowing, and the assertion after the append holds. This
  fails for a token as long as the buffer, written with the uppercase setting. The
  cursor is 0, so the margin check passes; the token is written as it comes, 4096 bytes
  and the terminator into a buffer of 4096 bytes, the cursor is at the capacity, and the
  assertion fails. With the lowercase setting the token goes through the scratch buffer
  of 72 bytes and is cut there; the uppercase path has no such bound.
\<close>

theorem long_token_breaks_assertion:
  "line_generator_update (plain\<lparr>text_uppercase := True\<rparr>) (fresh 10000)
     [tk (replicate 4096 CHR ''a'') {APRIL_TOKEN_FLAG_WORD_BOUNDARY_BIT}]
   = Some (Inl AssertionFailed)
   \<and> head (lines (fresh 10000) 0) = 0 \<and> AC_LINE_MAX plain = 4096
   \<and> \<not> must_break (plain\<lparr>text_uppercase := True\<rparr>) (lines (fresh 10000) 0)"
  by (simp add: run_defs)

section \<open>Backtracking\<close>

text \<open>
  Claim C4 says that an update whose growing line starts at or beyond the end of the
  token sequence deactivates the slot, goes back one slot, retries, and terminates. The
  call below meets the condition: after a line break in the first update the growing
  line is slot 0 and starts at token 1, and the second update has one token. It goes
  back to slot 1, which starts at token 0. The token is as wide as the maximum width, so
  the line is broken at its own first token, the next slot starts at token 0 again, and
  so on: the update never returns.
\<close>

theorem backtrack_then_wrap_never_returns:
  "growing (line_generator_update plain (line_generator_break plain (fresh 4))
              [tk '' a'' {APRIL_TOKEN_FLAG_WORD_BOUNDARY_BIT},
               tk '' b'' {APRIL_TOKEN_FLAG_WORD_BOUNDARY_BIT}]) = Some 0
   \<and> starts (line_generator_update plain (line_generator_break plain (fresh 4))
              [tk '' a'' {APRIL_TOKEN_FLAG_WORD_BOUNDARY_BIT},
               tk '' b'' {APRIL_TOKEN_FLAG_WORD_BOUNDARY_BIT}]) 0 = Some 1
   \<and> then_update plain
        (line_generator_update plain (line_generator_break plain (fresh 4))
           [tk '' a'' {APRIL_TOKEN_FLAG_WORD_BOUNDARY_BIT},
            tk '' b'' {APRIL_TOKEN_FLAG_WORD_BOUNDARY_BIT}])
        [tk '' wide'' {APRIL_TOKEN_FLAG_WORD_BOUNDARY_BIT}] = None"
proof -
  have "\<exists>lg1. line_generator_update plain (line_generator_break plain (fresh 4))
              [tk '' a'' {APRIL_TOKEN_FLAG_WORD_BOUNDARY_BIT},
               tk '' b'' {APRIL_TOKEN_FLAG_WORD_BOUNDARY_BIT}] = Some (Inr lg1)
          \<and> current_line lg1 = 0 \<and> active_start_of_lines lg1 0 = Some 1
          \<and> active_start_of_lines lg1 1 = Some 0
          \<and> start_head (lines lg1 1) = 0 \<and> start_len (lines lg1 1) = 0
          \<and> max_text_width lg1 = 4"
    by (simp add: run_defs)
  then obtain lg1 where
    h: "line_generator_update plain (line_generator_break plain (fresh 4))
              [tk '' a'' {APRIL_TOKEN_FLAG_WORD_BOUNDARY_BIT},
               tk '' b'' {APRIL_TOKEN_FLAG_WORD_BOUNDARY_BIT}] = Some (Inr lg1)"
    and c: "current_line lg1 = 0" and a0: "active_start_of_lines lg1 0 = Some 1"
    and a1: "active_start_of_lines lg1 1 = Some 0"
    and l1: "start_head (lines lg1 1) = 0" "start_len (lines lg1 1) = 0"
    and w: "max_text_width lg1 = 4"
    by blast
  obtain caps tc where
    sc: "should_capitalize (token_capitalizer_rewind (tcap lg1)) [tk '' wide'' {APRIL_TOKEN_FLAG_WORD_BOUNDARY_BIT}] = (caps, tc)"
    by (cases "should_capitalize (token_capitalizer_rewind (tcap lg1)) [tk '' wide'' {APRIL_TOKEN_FLAG_WORD_BOUNDARY_BIT}]")
  let ?lg2 = "lg1\<lparr>tcap := tc,
                  lines := (lines lg1)(0 := line_reset (lines lg1 0)),
                  active_start_of_lines := (active_start_of_lines lg1)(0 := None),
                  current_line := REL_LINE_IDX plain 0 (- 1)\<rparr>"
  have "update_lines plain caps [tk '' wide'' {APRIL_TOKEN_FLAG_WORD_BOUNDARY_BIT}] 0 (lg1\<lparr>tcap := tc\<rparr>) = Retry ?lg2"
    using c a0 by (subst backtrack_step[where s = 1]) (simp_all add: plain_def)
  then have p: "update_pass plain lg1 [tk '' wide'' {APRIL_TOKEN_FLAG_WORD_BOUNDARY_BIT}] = Retry ?lg2"
    using sc by (simp add: update_pass_def)
  have r: "REL_LINE_IDX plain 0 (- 1) = 1" by (simp add: REL_LINE_IDX_def plain_def)
  have "line_generator_update plain ?lg2 [tk '' wide'' {APRIL_TOKEN_FLAG_WORD_BOUNDARY_BIT}] = None"
    using a1 l1 w by (intro wide_token_never_returns) (simp_all add: r)
  then have "line_generator_update plain lg1 [tk '' wide'' {APRIL_TOKEN_FLAG_WORD_BOUNDARY_BIT}] = None"
    using p by (subst line_generator_update.simps) simp
  then show ?thesis using h c a0 by (simp add: then_update_def growing_def starts_def)
qed

text \<open>
  A second update with fewer tokens can also reach a slot in front of the growing line
  whose range still ends at the old start of the growing line: the loop over that range
  reads tokens beyond the end of the sequence before the backtrack is reached.
\<close>

lemma shrink_reads_past_tokens:
  "growing (line_generator_update plain (fresh 10)
              [tk '' aaa'' {APRIL_TOKEN_FLAG_WORD_BOUNDARY_BIT},
               tk '' bbb'' {APRIL_TOKEN_FLAG_WORD_BOUNDARY_BIT},
               tk '' cc'' {APRIL_TOKEN_FLAG_WORD_BOUNDARY_BIT},
               tk '' dddd'' {APRIL_TOKEN_FLAG_WORD_BOUNDARY_BIT}]) = Some 1
   \<and> starts (line_generator_update plain (fresh 10)
              [tk '' aaa'' {APRIL_TOKEN_FLAG_WORD_BOUNDARY_BIT},
               tk '' bbb'' {APRIL_TOKEN_FLAG_WORD_BOUNDARY_BIT},
               tk '' cc'' {APRIL_TOKEN_FLAG_WORD_BOUNDARY_BIT},
               tk '' dddd'' {APRIL_TOKEN_FLAG_WORD_BOUNDARY_BIT}]) 1 = Some 2
   \<and> then_update plain
        (line_generator_update plain (fresh 10)
           [tk '' aaa'' {APRIL_TOKEN_FLAG_WORD_BOUNDARY_BIT},
               tk '' bbb'' {APRIL_TOKEN_FLAG_WORD_BOUNDARY_BIT},
               tk '' cc'' {APRIL_TOKEN_FLAG_WORD_BOUNDARY_BIT},
               tk '' dddd'' {APRIL_TOKEN_FLAG_WORD_BOUNDARY_BIT}])
        [tk '' aaa'' {APRIL_TOKEN_FLAG_WORD_BOUNDARY_BIT}] = Some (Inl TokenIndexOutOfRange)"
  by (simp add: run_defs)

end
